theory Spec2Isabelle
  imports Complex_Main "HOL-Library.Word" "HOL-Library.Multiset"
begin

unbundle bit_operations_syntax

section \<open>Conventions\<close>

text \<open>
  The decoder front-end of audiowmark (\<^verbatim>\<open>syncfinder.cc\<close>, \<^verbatim>\<open>wmspeed.cc\<close>) is embedded
  function by function. The C++ types \<^verbatim>\<open>float\<close> and \<^verbatim>\<open>double\<close> are modelled by \<^typ>\<open>real\<close>:
  arithmetic is exact, and the values are finite numbers (no NaN, no infinity). The type
  \<^verbatim>\<open>int\<close> is modelled by \<^typ>\<open>int\<close> and \<^verbatim>\<open>size_t\<close> by \<^typ>\<open>nat\<close>; the sizes that occur
  (frame counts, sample indices, thread counts) stay far below \<open>2^31\<close>.
\<close>

section \<open>Bit quality (\<^verbatim>\<open>SyncFinder::bit_quality\<close>)\<close>

text \<open>
  \<^verbatim>\<open>double SyncFinder::bit_quality (float umag, float dmag, int bit)\<close>: the local
  \<^verbatim>\<open>expect_data_bit\<close> is \<^verbatim>\<open>bit & 1\<close>, and the conditional expression at the end tests it
  against zero.
\<close>

definition raw_bit :: "real \<Rightarrow> real \<Rightarrow> real" where
  "raw_bit umag dmag =
     (if umag = 0 \<or> dmag = 0 then 0
      else if umag < dmag then 1 - umag / dmag
      else dmag / umag - 1)"

definition bit_quality :: "real \<Rightarrow> real \<Rightarrow> int \<Rightarrow> real" where
  "bit_quality umag dmag b =
     (let expect_data_bit = b AND 1
      in if expect_data_bit \<noteq> 0 then raw_bit umag dmag else - raw_bit umag dmag)"

lemma expect_data_bit_cases: "(b :: int) AND 1 = 0 \<or> b AND 1 = 1"
  by (simp add: and_one_eq) presburger

text \<open>
  Claim C1. \<^verbatim>\<open>bit_quality (umag, dmag, bit)\<close> is the piecewise function of the
  specification: with \<open>expect = bit & 1\<close> (which is 0 or 1), the raw value is 0 when a
  magnitude is 0, \<open>1 - umag / dmag\<close> when \<open>umag < dmag\<close>, and \<open>dmag / umag - 1\<close> otherwise;
  the result is the raw value for \<open>expect = 1\<close> and its negation for \<open>expect = 0\<close>. Hence
  the value for bit 0 is the negation of the value for bit 1. On the sample inputs of
  scenario S5 the function gives \<open>bit_quality (1.0, 1.0, 0) = 0\<close>,
  \<open>bit_quality (1.0, 0.5, 1) = -0.5\<close> and \<open>bit_quality (0.5, 1.0, 1) = 0.5\<close>: a larger up
  magnitude makes the raw value negative.
\<close>

theorem bit_quality_piecewise:
  "(b AND 1 = 0 \<or> b AND 1 = 1)
   \<and> bit_quality umag dmag b =
       (if b AND 1 = 1
        then (if umag = 0 \<or> dmag = 0 then 0
              else if umag < dmag then 1 - umag / dmag else dmag / umag - 1)
        else - (if umag = 0 \<or> dmag = 0 then 0
                else if umag < dmag then 1 - umag / dmag else dmag / umag - 1))
   \<and> bit_quality umag dmag 0 = - bit_quality umag dmag 1
   \<and> bit_quality 1 1 0 = 0
   \<and> bit_quality 1 (1 / 2) 1 = - (1 / 2)
   \<and> bit_quality (1 / 2) 1 1 = 1 / 2"
proof -
  have c: "b AND 1 = 0 \<or> b AND 1 = 1"
    by (rule expect_data_bit_cases)
  have p: "bit_quality umag dmag b =
       (if b AND 1 = 1
        then (if umag = 0 \<or> dmag = 0 then 0
              else if umag < dmag then 1 - umag / dmag else dmag / umag - 1)
        else - (if umag = 0 \<or> dmag = 0 then 0
                else if umag < dmag then 1 - umag / dmag else dmag / umag - 1))"
    using c by (auto simp: bit_quality_def raw_bit_def Let_def)
  have s: "bit_quality umag dmag 0 = - bit_quality umag dmag 1"
    by (simp add: bit_quality_def)
  have e1: "bit_quality 1 1 0 = 0"
    by (simp add: bit_quality_def raw_bit_def)
  have e2: "bit_quality 1 (1 / 2) 1 = - (1 / 2)"
    by (simp add: bit_quality_def raw_bit_def)
  have e3: "bit_quality (1 / 2) 1 1 = 1 / 2"
    by (simp add: bit_quality_def raw_bit_def)
  from c p s e1 e2 e3 show ?thesis by blast
qed

text \<open>
  The sample values of scenario S5 as the specification prints them have the sign
  reversed: at \<open>umag = 1.0\<close>, \<open>dmag = 0.5\<close> and bit 1 the function does not return \<open>0.5\<close>,
  and at \<open>umag = 0.5\<close>, \<open>dmag = 1.0\<close> and bit 1 it does not return \<open>-0.5\<close>.
\<close>

theorem bit_quality_S5_counterexample:
  "bit_quality 1 (1 / 2) 1 \<noteq> 1 / 2 \<and> bit_quality (1 / 2) 1 1 \<noteq> - (1 / 2)"
  by (simp add: bit_quality_def raw_bit_def)

text \<open>
  Claim C3. For magnitudes that are not negative, \<^verbatim>\<open>bit_quality\<close> lies in \<open>[-1, 1]\<close>;
  for all magnitudes and every bit it is 0 exactly when \<open>umag = 0\<close>, \<open>dmag = 0\<close> or
  \<open>umag = dmag\<close>.
\<close>

lemma raw_bit_range:
  assumes "0 \<le> umag" and "0 \<le> dmag"
  shows "- 1 \<le> raw_bit umag dmag \<and> raw_bit umag dmag \<le> 1"
proof (cases "umag = 0 \<or> dmag = 0")
  case True
  then show ?thesis by (auto simp: raw_bit_def)
next
  case False
  with assms have pos: "0 < umag" "0 < dmag" by auto
  show ?thesis
  proof (cases "umag < dmag")
    case True
    with pos have "0 \<le> umag / dmag" "umag / dmag \<le> 1" by simp_all
    with False True show ?thesis by (simp add: raw_bit_def)
  next
    case ge: False
    with pos have "0 \<le> dmag / umag" "dmag / umag \<le> 1" by simp_all
    with False ge show ?thesis by (simp add: raw_bit_def)
  qed
qed

lemma raw_bit_zero_iff:
  "raw_bit umag dmag = 0 \<longleftrightarrow> umag = 0 \<or> dmag = 0 \<or> umag = dmag"
  by (auto simp: raw_bit_def)

theorem bit_quality_range_and_zero:
  "(0 \<le> umag \<and> 0 \<le> dmag \<longrightarrow> - 1 \<le> bit_quality umag dmag b \<and> bit_quality umag dmag b \<le> 1)
   \<and> (bit_quality umag dmag b = 0 \<longleftrightarrow> umag = 0 \<or> dmag = 0 \<or> umag = dmag)"
proof -
  have r: "0 \<le> umag \<and> 0 \<le> dmag \<longrightarrow>
      - 1 \<le> bit_quality umag dmag b \<and> bit_quality umag dmag b \<le> 1"
    using raw_bit_range [of umag dmag] by (auto simp: bit_quality_def Let_def)
  have z: "bit_quality umag dmag b = 0 \<longleftrightarrow> umag = 0 \<or> dmag = 0 \<or> umag = dmag"
    using raw_bit_zero_iff [of umag dmag] by (auto simp: bit_quality_def Let_def)
  from r z show ?thesis by blast
qed

theorem bit_quality_range_and_zero_witness:
  "(0::real) \<le> 1 \<and> (0::real) \<le> 2 \<and> - 1 \<le> bit_quality 1 2 1 \<and> bit_quality 1 2 1 \<le> 1
   \<and> bit_quality 1 2 1 = 1 / 2 \<and> bit_quality 1 2 1 \<noteq> 0"
  using bit_quality_range_and_zero [of 1 2 1]
  by (simp add: bit_quality_def raw_bit_def)

text \<open>
  With negative magnitudes (the magnitudes are sums of dB values, which are negative for
  quiet bands) the value leaves \<open>[-1, 1]\<close>: \<open>umag = -4\<close>, \<open>dmag = -1\<close> gives
  \<open>1 - 4 = -3\<close> for bit 1.
\<close>

theorem bit_quality_range_counterexample:
  "bit_quality (- 4) (- 1) 1 = - 3 \<and> \<not> (- 1 \<le> bit_quality (- 4) (- 1) 1)"
  by (simp add: bit_quality_def raw_bit_def)

section \<open>Job splitting (\<^verbatim>\<open>split_jobs\<close>)\<close>

text \<open>
  \<^verbatim>\<open>vector<int> split_jobs (int jobs, int threads)\<close>. The lambda \<^verbatim>\<open>update_split_jobs\<close>
  captures \<^verbatim>\<open>jobs\<close> and the result vector by reference; the model passes both as a pair.
  Its assertion \<^verbatim>\<open>assert (j >= 0 && j <= jobs)\<close> aborts the program: that is the value
  \<open>None\<close>. The \<^verbatim>\<open>while\<close> loop does not end when \<^verbatim>\<open>threads\<close> is 0 and jobs remain, so it is
  a partial function, with \<open>None\<close> for a run that returns nothing. Integer division in C++
  truncates towards zero.
\<close>
definition c_div :: "int \<Rightarrow> int \<Rightarrow> int" where
  "c_div a b = sgn a * sgn b * (\<bar>a\<bar> div \<bar>b\<bar>)"

type_synonym split_state = "int \<times> int list"

definition update_split_jobs :: "int \<Rightarrow> split_state \<Rightarrow> split_state option" where
  "update_split_jobs j s =
     (case s of (jobs, split) \<Rightarrow>
        if j \<ge> 0 \<and> j \<le> jobs
        then Some (if j \<noteq> 0 then (jobs - j, split @ [j]) else (jobs, split))
        else None)"

partial_function (option) split_jobs_loop :: "int \<Rightarrow> split_state \<Rightarrow> split_state option" where
  "split_jobs_loop threads s =
     (if fst s > 2 * threads
      then Option.bind (update_split_jobs threads s) (split_jobs_loop threads)
      else Some s)"

declare split_jobs_loop.simps [code]

definition split_jobs :: "int \<Rightarrow> int \<Rightarrow> int list option" where
  "split_jobs jobs threads =
     Option.bind (split_jobs_loop threads (jobs, [])) (\<lambda>s1.
     Option.bind (if fst s1 > threads then update_split_jobs (c_div (fst s1 + 1) 2) s1 else Some s1) (\<lambda>s2.
     Option.bind (update_split_jobs (fst s2) s2) (\<lambda>s3.
     Some (snd s3))))"

text \<open>
  The procedure in the words of the specification, on natural numbers: while \<open>J > 2T\<close>
  emit \<open>T\<close>; then if \<open>J > T\<close> emit \<open>\<lceil>J/2\<rceil>\<close>; then emit the remaining jobs, unless
  there are none. (For \<open>T = 0\<close>, which the specification does not cover, the list is empty.)
\<close>

function split_jobs_spec :: "nat \<Rightarrow> nat \<Rightarrow> nat list" where
  "split_jobs_spec J T =
     (if T = 0 then []
      else if J > 2 * T then T # split_jobs_spec (J - T) T
      else if J > T then [(J + 1) div 2] @ (if J - (J + 1) div 2 = 0 then [] else [J - (J + 1) div 2])
      else if J = 0 then [] else [J])"
  by pat_completeness auto
termination
  by (relation "measure (\<lambda>(J, T). J)") auto

declare split_jobs_spec.simps [simp del]


lemma split_jobs_spec_small:
  assumes "1 \<le> T" and "J \<le> 2 * T"
  shows "split_jobs_spec J T =
     (if J > T then [(J + 1) div 2, J - (J + 1) div 2] else if J = 0 then [] else [J])"
  using assms by (subst split_jobs_spec.simps) auto

lemma split_jobs_loop_spec:
  assumes "1 \<le> T" and "0 \<le> J"
  shows "\<exists>J' ys. split_jobs_loop T (J, acc) = Some (J', acc @ ys)
           \<and> 0 \<le> J' \<and> J' \<le> 2 * T
           \<and> map int (split_jobs_spec (nat J) (nat T)) = ys @ map int (split_jobs_spec (nat J') (nat T))
           \<and> sum_list ys + J' = J \<and> (\<forall>y \<in> set ys. y = T)"
  using assms
proof (induction "nat J" arbitrary: J acc rule: less_induct)
  case less
  show ?case
  proof (cases "J > 2 * T")
    case False
    then have "split_jobs_loop T (J, acc) = Some (J, acc @ [])"
      by (subst split_jobs_loop.simps) simp
    with False less.prems show ?thesis by fastforce
  next
    case True
    with less.prems have lt: "nat (J - T) < nat J" and nn: "0 \<le> J - T" by auto
    from less.hyps [OF lt \<open>1 \<le> T\<close> nn, of "acc @ [T]"]
    obtain J' ys where
      r: "split_jobs_loop T (J - T, (acc @ [T])) = Some (J', (acc @ [T]) @ ys)"
      and b: "0 \<le> J'" "J' \<le> 2 * T"
      and sp: "map int (split_jobs_spec (nat (J - T)) (nat T)) = ys @ map int (split_jobs_spec (nat J') (nat T))"
      and su: "sum_list ys + J' = J - T" and al: "\<forall>y \<in> set ys. y = T"
      by blast
    from True less.prems have step: "split_jobs_loop T (J, acc) = split_jobs_loop T (J - T, acc @ [T])"
      by (subst split_jobs_loop.simps) (simp add: update_split_jobs_def)
    from True less.prems have "split_jobs_spec (nat J) (nat T) = nat T # split_jobs_spec (nat J - nat T) (nat T)"
      by (subst split_jobs_spec.simps) auto
    moreover from True less.prems have "nat J - nat T = nat (J - T)" by simp
    ultimately have sp': "map int (split_jobs_spec (nat J) (nat T)) = (T # ys) @ map int (split_jobs_spec (nat J') (nat T))"
      using sp less.prems by simp
    show ?thesis
      apply (rule exI [of _ J'], rule exI [of _ "T # ys"])
      using step r b sp' su al by simp
  qed
qed

lemma split_jobs_tail:
  assumes "1 \<le> T" and "0 \<le> J'" and "J' \<le> 2 * T"
  shows "Option.bind (if fst (J', acc) > T then update_split_jobs (c_div (fst (J', acc) + 1) 2) (J', acc) else Some (J', acc)) (\<lambda>s2.
     Option.bind (update_split_jobs (fst s2) s2) (\<lambda>s3. Some (snd s3)))
     = Some (acc @ map int (split_jobs_spec (nat J') (nat T)))"
proof -
  have cd: "c_div (J' + 1) 2 = (J' + 1) div 2"
    using assms by (simp add: c_div_def sgn_if)
  have n: "int ((nat J' + 1) div 2) = (J' + 1) div 2"
    using assms by (simp add: zdiv_int)
  have m: "int (nat J' - (nat J' + 1) div 2) = J' - (J' + 1) div 2"
    using assms by (simp add: zdiv_int nat_diff_distrib)
  show ?thesis
  proof (cases "J' > T")
    case True
    with assms have h: "0 \<le> (J' + 1) div 2" "(J' + 1) div 2 \<le> J'" "(J' + 1) div 2 \<noteq> 0"
      "J' - (J' + 1) div 2 \<noteq> 0" "0 \<le> J' - (J' + 1) div 2" by linarith+
    from True assms have sp: "split_jobs_spec (nat J') (nat T) = [(nat J' + 1) div 2, nat J' - (nat J' + 1) div 2]"
      by (subst split_jobs_spec_small) auto
    show ?thesis
      using True h assms n m by (simp add: sp update_split_jobs_def cd)
  next
    case False
    with assms have sp: "split_jobs_spec (nat J') (nat T) = (if J' = 0 then [] else [nat J'])"
      by (subst split_jobs_spec_small) auto
    show ?thesis
      using False assms by (simp add: sp update_split_jobs_def)
  qed
qed

lemma split_jobs_refines:
  assumes "0 \<le> J" and "1 \<le> T"
  shows "split_jobs J T = Some (map int (split_jobs_spec (nat J) (nat T)))"
proof -
  from split_jobs_loop_spec [OF assms(2) assms(1), of "[]"]
  obtain J' ys where r: "split_jobs_loop T (J, []) = Some (J', ys)"
    and b: "0 \<le> J'" "J' \<le> 2 * T"
    and sp: "map int (split_jobs_spec (nat J) (nat T)) = ys @ map int (split_jobs_spec (nat J') (nat T))"
    by auto
  show ?thesis
    unfolding split_jobs_def r sp
    using split_jobs_tail [OF assms(2) b, of ys] by simp
qed

lemma split_jobs_sum_bound:
  assumes "0 \<le> J" and "1 \<le> T" and "split_jobs J T = Some xs"
  shows "sum_list xs = J \<and> (\<forall>x \<in> set xs. 0 < x \<and> x \<le> T)"
proof -
  from split_jobs_loop_spec [OF assms(2) assms(1), of "[]"]
  obtain J' ys where r: "split_jobs_loop T (J, []) = Some (J', ys)"
    and b: "0 \<le> J'" "J' \<le> 2 * T"
    and su: "sum_list ys + J' = J" and al: "\<forall>y \<in> set ys. y = T"
    by auto
  from assms(3) split_jobs_tail [OF assms(2) b, of ys]
  have xs: "xs = ys @ map int (split_jobs_spec (nat J') (nat T))"
    unfolding split_jobs_def r by simp
  from b assms(2) have sp: "split_jobs_spec (nat J') (nat T) =
     (if nat J' > nat T then [(nat J' + 1) div 2, nat J' - (nat J' + 1) div 2] else if nat J' = 0 then [] else [nat J'])"
    by (subst split_jobs_spec_small) auto
  have s: "sum_list (map int (split_jobs_spec (nat J') (nat T))) = J'"
    using b assms(2) unfolding sp by (auto simp: zdiv_int) 
  have t: "\<forall>x \<in> set (map int (split_jobs_spec (nat J') (nat T))). 0 < x \<and> x \<le> T"
    using b assms(2) unfolding sp by (auto simp: zdiv_int) 
  from xs s t su al assms(2) show ?thesis by auto
qed




section \<open>Speed detection (\<^verbatim>\<open>wmspeed.cc\<close>)\<close>

subsection \<open>Data\<close>

text \<open>
  Modelled from the spec: the accessors of \<^verbatim>\<open>WavData\<close> (\<^verbatim>\<open>wavdata.hh\<close> is not among the
  sources). A signal has a sample rate, a channel count, a bit depth and interleaved
  samples; \<^verbatim>\<open>n_values\<close> is the number of samples and \<^verbatim>\<open>n_frames\<close> the number of samples
  per channel. The channel count is at least 1.
\<close>

record WavData =
  samples :: "real list"
  n_channels :: nat
  sample_rate :: int
  bit_depth :: int

definition n_values :: "WavData \<Rightarrow> nat" where
  "n_values wav_data = length (samples wav_data)"

definition n_frames :: "WavData \<Rightarrow> nat" where
  "n_frames wav_data = length (samples wav_data) div n_channels wav_data"

text \<open>\<^verbatim>\<open>SpeedSync::Score\<close>, \<^verbatim>\<open>SpeedScanParams\<close>, \<^verbatim>\<open>SpeedSync::BitValue\<close> and \<^verbatim>\<open>CmpState\<close>.\<close>

record Score =
  speed :: real
  quality :: real

record SpeedScanParams =
  seconds :: real
  step :: real
  n_steps :: int
  n_center_steps :: int

record BitValue =
  bv_umag :: real
  bv_dmag :: real
  bv_count :: int

record CmpState =
  offset :: int
  bit_values :: "BitValue list"

text \<open>
  The fields of \<^verbatim>\<open>Params\<close> that the speed detector reads (\<^verbatim>\<open>wmcommon.hh\<close> is not among
  the sources, so they are parameters).
\<close>

record SpeedParams =
  water_delta :: real
  detect_speed_patient :: bool

subsection \<open>Selecting the best scores\<close>

text \<open>
  \<^verbatim>\<open>std::sort\<close> is modelled by \<^const>\<open>sort_key\<close>: the result is sorted and a permutation of
  the input; elements with equal keys keep their order (C++ leaves their order open).
  The lambda \<^verbatim>\<open>get_quality\<close> reads a quality, or 0 outside the vector.
\<close>

definition get_quality :: "Score list \<Rightarrow> int \<Rightarrow> real" where
  "get_quality scores pos =
     (if pos \<ge> 0 \<and> nat pos < length scores then quality (scores ! nat pos) else 0)"

function lmax_loop :: "Score list \<Rightarrow> int \<Rightarrow> Score list \<Rightarrow> Score list" where
  "lmax_loop scores x lmax_scores =
     (if 0 \<le> x \<and> nat x < length scores
      then if get_quality scores (x - 1) \<le> get_quality scores x
              \<and> get_quality scores x \<ge> get_quality scores (x + 1)
           then lmax_loop scores (x + 1 + 1) (lmax_scores @ [scores ! nat x])
           else lmax_loop scores (x + 1) lmax_scores
      else lmax_scores)"
  by pat_completeness auto
termination
  by (relation "measure (\<lambda>(scores, x, lmax_scores). length scores - nat x)") auto

declare lmax_loop.simps [simp del]

definition select_n_best_scores :: "Score list \<Rightarrow> nat \<Rightarrow> Score list" where
  "select_n_best_scores scores n =
     (let sorted_scores = sort_key speed scores;
          lmax_scores = lmax_loop sorted_scores 0 [];
          lmax_sorted = sort_key (\<lambda>a. - quality a) lmax_scores
      in take n lmax_sorted)"

subsection \<open>Comparing at one relative speed\<close>

definition normalize_sync_quality :: "real \<Rightarrow> real \<Rightarrow> real" where
  "normalize_sync_quality wdelta raw_quality = raw_quality / min wdelta (80 / 1000) / (29 / 10)"

text \<open>
  The end of \<^verbatim>\<open>SpeedSync::compare\<close>: from the comparison states that \<^verbatim>\<open>compare_bits\<close>
  has filled, the best score. The loop over \<^verbatim>\<open>bit < Params::sync_bits\<close> runs over the
  array \<^verbatim>\<open>bit_values\<close>, which has that length.
\<close>

definition cmp_state_sums :: "CmpState \<Rightarrow> real \<times> int" where
  "cmp_state_sums cs =
     foldl (\<lambda>(sync_quality, bit_count) (b, bv).
              (sync_quality + bit_quality (bv_umag bv) (bv_dmag bv) (int b) * real_of_int (bv_count bv),
               bit_count + bv_count bv))
       (0, 0) (enumerate 0 (bit_values cs))"

definition compare_step :: "real \<Rightarrow> real \<Rightarrow> real \<Rightarrow> Score \<Rightarrow> CmpState \<Rightarrow> Score" where
  "compare_step wdelta relative_speed center best_score cs =
     (let (sync_quality, bit_count) = cmp_state_sums cs
      in if bit_count \<noteq> 0
         then (let sync_quality' = \<bar>normalize_sync_quality wdelta (sync_quality / real_of_int bit_count)\<bar>
               in if sync_quality' > quality best_score
                  then \<lparr>speed = relative_speed * center, quality = sync_quality'\<rparr>
                  else best_score)
         else best_score)"

definition compare :: "real \<Rightarrow> CmpState list \<Rightarrow> real \<Rightarrow> real \<Rightarrow> Score" where
  "compare wdelta cmp_states relative_speed center =
     foldl (compare_step wdelta relative_speed center) \<lparr>speed = 0, quality = 0\<rparr> cmp_states"

subsection \<open>Smoothing\<close>

text \<open>
  \<^verbatim>\<open>score_smooth_find_best\<close>. The window \<^verbatim>\<open>window_cos\<close> (\<^verbatim>\<open>utils.hh\<close>) is a parameter.
  \<^verbatim>\<open>scores.front()\<close> on an empty vector is undefined: the value \<open>None\<close>.
\<close>

lemma smooth_loop_measure:
  assumes "spd < (back_speed :: real)"
  shows "nat \<lceil>(back_speed - (spd + 1 / 1000000)) * 1000000\<rceil> < nat \<lceil>(back_speed - spd) * 1000000\<rceil>"
proof -
  from assms have "0 < (back_speed - spd) * 1000000" by simp
  then have p: "0 < \<lceil>(back_speed - spd) * 1000000\<rceil>" by simp
  have e: "(back_speed - (spd + 1 / 1000000)) * 1000000 = (back_speed - spd) * 1000000 - 1"
    by (simp add: algebra_simps)
  have "\<lceil>(back_speed - (spd + 1 / 1000000)) * 1000000\<rceil> = \<lceil>(back_speed - spd) * 1000000\<rceil> - 1"
    unfolding e by (rule ceiling_diff_one)
  with p show ?thesis by linarith
qed

function smooth_loop ::
  "(real \<Rightarrow> real) \<Rightarrow> Score list \<Rightarrow> real \<Rightarrow> real \<Rightarrow> real \<Rightarrow> real \<Rightarrow> real \<Rightarrow> real \<Rightarrow> real" where
  "smooth_loop window_cos scores stp distance back_speed spd best_speed best_quality =
     (if spd < back_speed
      then (let quality_sum = sum_list (map (\<lambda>s. quality s * window_cos ((speed s - spd) / (stp * distance))) scores);
                quality_div = sum_list (map (\<lambda>s. window_cos ((speed s - spd) / (stp * distance))) scores);
                quality_avg = quality_sum / quality_div
            in if quality_avg > best_quality
               then smooth_loop window_cos scores stp distance back_speed (spd + 1 / 1000000) spd quality_avg
               else smooth_loop window_cos scores stp distance back_speed (spd + 1 / 1000000) best_speed best_quality)
      else best_speed)"
  by pat_completeness auto
termination
  by (relation "measure (\<lambda>(window_cos, scores, stp, distance, back_speed, spd, best_speed, best_quality).
                    nat \<lceil>(back_speed - spd) * 1000000\<rceil>)")
     (simp_all only: wf_measure in_measure prod.case smooth_loop_measure)

declare smooth_loop.simps [simp del]

definition score_smooth_find_best ::
  "(real \<Rightarrow> real) \<Rightarrow> Score list \<Rightarrow> real \<Rightarrow> real \<Rightarrow> real option" where
  "score_smooth_find_best window_cos in_scores stp distance =
     (let scores = sort_key speed in_scores
      in if scores = [] then None
         else Some (smooth_loop window_cos scores stp distance (speed (last scores)) (speed (hd scores)) 0 0))"

subsection \<open>The scan passes\<close>

text \<open>
  The magnitude matrix of a \<^verbatim>\<open>SpeedSync\<close> comes from the resampler and the FFT, and
  \<^verbatim>\<open>compare_bits\<close> reads it; both are outside this development. Their outcome is the
  parameter \<open>cmp_states_of\<close>: for a key, the scan parameters, the centre speed of the
  \<^verbatim>\<open>SpeedSync\<close> and a relative speed, the comparison states after the three calls of
  \<^verbatim>\<open>compare_bits\<close>. The signal and the clip location of the key are fixed in it.

  \<^verbatim>\<open>SpeedSync::get_jobs\<close> makes one search job for each \<open>p\<close> from \<open>-n_steps\<close> to
  \<open>n_steps\<close>; every job appends one score. The jobs run on the thread pool and append
  under a mutex; the model lists the scores in the order of the jobs.
\<close>

type_synonym 'k cmp_states_of = "'k \<Rightarrow> SpeedScanParams \<Rightarrow> real \<Rightarrow> real \<Rightarrow> CmpState list"

definition speed_sync_scores ::
  "'k cmp_states_of \<Rightarrow> SpeedParams \<Rightarrow> 'k \<Rightarrow> SpeedScanParams \<Rightarrow> real \<Rightarrow> Score list" where
  "speed_sync_scores cmp_states_of P k scan_params center =
     map (\<lambda>p. let relative_speed = step scan_params powi p * center / center
              in compare (water_delta P) (cmp_states_of k scan_params center relative_speed)
                   relative_speed center)
       [- n_steps scan_params .. n_steps scan_params]"

text \<open>
  \<^verbatim>\<open>SpeedSearch::get_jobs\<close> builds a \<^verbatim>\<open>SpeedSync\<close> for every speed and every centre step;
  \<^verbatim>\<open>SpeedSearch::get_results\<close> concatenates their scores.
\<close>

definition center_speeds :: "SpeedScanParams \<Rightarrow> real list \<Rightarrow> real list" where
  "center_speeds scan_params speeds =
     concat (map (\<lambda>spd. map (\<lambda>c. spd * step scan_params powi (c * (n_steps scan_params * 2 + 1)))
                           [- n_center_steps scan_params .. n_center_steps scan_params])
                 speeds)"

record 'k KeySpeedSearch =
  key :: 'k
  scores :: "Score list"

text \<open>
  The lambda \<^verbatim>\<open>run_search\<close> of \<^verbatim>\<open>detect_speed\<close>. The speeds of a key come from
  \<open>get_speeds\<close>, which is \<open>None\<close> when it reads outside a vector. The jobs are processed
  in the batches of \<^const>\<open>split_jobs\<close>; \<^verbatim>\<open>assert (start == jobs.size())\<close> follows the
  batches. The number of worker threads (\<^verbatim>\<open>threadpool.hh\<close>) is a parameter.
\<close>

definition run_search ::
  "'k cmp_states_of \<Rightarrow> SpeedParams \<Rightarrow> int \<Rightarrow> SpeedScanParams \<Rightarrow> (Score list \<Rightarrow> real list option)
     \<Rightarrow> 'k KeySpeedSearch list \<Rightarrow> 'k KeySpeedSearch list option" where
  "run_search cmp_states_of P n_threads scan_params get_speeds key_speed_search_vec =
     (case those (map (\<lambda>kss. get_speeds (scores kss)) key_speed_search_vec) of
        None \<Rightarrow> None
      | Some speeds_vec \<Rightarrow>
          (let centers_vec = map (center_speeds scan_params) speeds_vec;
               n_jobs = int (sum_list (map length centers_vec))
           in case split_jobs n_jobs n_threads of
                None \<Rightarrow> None
              | Some counts \<Rightarrow>
                  if sum_list counts = n_jobs
                  then Some (map (\<lambda>(kss, centers).
                                    kss\<lparr>scores := concat (map (speed_sync_scores cmp_states_of P (key kss) scan_params)
                                                            centers)\<rparr>)
                               (zip key_speed_search_vec centers_vec))
                  else None))"

definition scan1 :: "SpeedParams \<Rightarrow> SpeedScanParams" where
  "scan1 P =
     (if detect_speed_patient P
      then \<lparr>seconds = 50, step = 100035 / 100000, n_steps = 11, n_center_steps = 28\<rparr>
      else \<lparr>seconds = 25, step = 10007 / 10000, n_steps = 5, n_center_steps = 28\<rparr>)"

definition scan2 :: "SpeedParams \<Rightarrow> SpeedScanParams" where
  "scan2 P =
     (if detect_speed_patient P
      then \<lparr>seconds = 50, step = 1000175 / 1000000, n_steps = 1, n_center_steps = 0\<rparr>
      else \<lparr>seconds = 50, step = 100035 / 100000, n_steps = 1, n_center_steps = 0\<rparr>)"

definition scan3 :: SpeedScanParams where
  "scan3 = \<lparr>seconds = 50, step = 100005 / 100000, n_steps = 40, n_center_steps = 0\<rparr>"

definition scan3_smooth_distance :: real where
  "scan3_smooth_distance = 20"

definition speed_sync_threshold :: real where
  "speed_sync_threshold = 4 / 10"

definition n_best :: "SpeedParams \<Rightarrow> nat" where
  "n_best P = (if detect_speed_patient P then 15 else 5)"

text \<open>
  The last loop of \<^verbatim>\<open>detect_speed\<close>: for every key the smoothed best speed and the best
  quality, and a result only behind the two tests. (\<^verbatim>\<open>print_results\<close> only prints.)
\<close>

definition best_quality_of :: "Score list \<Rightarrow> real" where
  "best_quality_of scs = foldl (\<lambda>best_quality score. max best_quality (quality score)) 0 scs"

definition best_speed_of :: "(real \<Rightarrow> real) \<Rightarrow> Score list \<Rightarrow> real option" where
  "best_speed_of window_cos scs =
     score_smooth_find_best window_cos scs (1 - step scan3) scan3_smooth_distance"

fun collect_results ::
  "(real \<Rightarrow> real) \<Rightarrow> 'k KeySpeedSearch list \<Rightarrow> ('k \<times> real) list \<Rightarrow> ('k \<times> real) list option" where
  "collect_results window_cos [] results = Some results"
| "collect_results window_cos (kss # rest) results =
     (case best_speed_of window_cos (scores kss) of
        None \<Rightarrow> None
      | Some best_speed \<Rightarrow>
          (let best_quality = best_quality_of (scores kss)
           in if best_quality > speed_sync_threshold
              then if best_speed < 9999 / 10000 \<or> best_speed > 10001 / 10000
                   then collect_results window_cos rest (results @ [(key kss, best_speed)])
                   else collect_results window_cos rest results
              else collect_results window_cos rest results))"

text \<open>
  \<^verbatim>\<open>detect_speed\<close>. The division \<^verbatim>\<open>double (n_frames) / sample_rate\<close> by a sample rate 0
  gives an infinity or a NaN, which is not below 0.25. The three calls of \<^verbatim>\<open>run_search\<close>
  with their speed lambdas are \<open>scan_passes\<close>. \<open>None\<close> stands for a run that reads
  \<^verbatim>\<open>scores[0]\<close> or \<^verbatim>\<open>scores.front()\<close> of an empty vector, or that \<^const>\<open>split_jobs\<close> aborts.
\<close>

definition scan2_speeds :: "SpeedParams \<Rightarrow> Score list \<Rightarrow> real list option" where
  "scan2_speeds P scs = Some (map speed (select_n_best_scores scs (n_best P)))"

definition scan3_speeds :: "Score list \<Rightarrow> real list option" where
  "scan3_speeds scs = (case scs of [] \<Rightarrow> None | s # rest \<Rightarrow> Some [speed s])"

definition scan_passes ::
  "'k cmp_states_of \<Rightarrow> SpeedParams \<Rightarrow> int \<Rightarrow> 'k list \<Rightarrow> 'k KeySpeedSearch list option" where
  "scan_passes cmp_states_of P n_threads key_list =
     (let vec0 = map (\<lambda>k. \<lparr>key = k, scores = []\<rparr>) key_list
      in case run_search cmp_states_of P n_threads (scan1 P) (\<lambda>scs. Some [1]) vec0 of
           None \<Rightarrow> None
         | Some vec1 \<Rightarrow>
             (case run_search cmp_states_of P n_threads (scan2 P) (scan2_speeds P) vec1 of
                None \<Rightarrow> None
              | Some vec2 \<Rightarrow>
                  (let vec2' = map (\<lambda>kss. kss\<lparr>scores := select_n_best_scores (scores kss) 1\<rparr>) vec2
                   in run_search cmp_states_of P n_threads scan3 scan3_speeds vec2')))"

definition detect_speed ::
  "'k cmp_states_of \<Rightarrow> (real \<Rightarrow> real) \<Rightarrow> SpeedParams \<Rightarrow> int \<Rightarrow> 'k list \<Rightarrow> WavData \<Rightarrow> bool
     \<Rightarrow> ('k \<times> real) list option" where
  "detect_speed cmp_states_of window_cos P n_threads key_list in_data print_results =
     (let in_seconds = real (n_frames in_data) / real_of_int (sample_rate in_data)
      in if sample_rate in_data \<noteq> 0 \<and> in_seconds < 25 / 100 then Some []
         else (case scan_passes cmp_states_of P n_threads key_list of
                 None \<Rightarrow> None
               | Some vec3 \<Rightarrow> collect_results window_cos vec3 []))"

subsection \<open>A peak exists\<close>

lemma get_quality_nonneg:
  assumes "\<forall>s \<in> set scs. 0 \<le> quality s"
  shows "0 \<le> get_quality scs pos"
  using assms by (simp add: get_quality_def)

lemma lmax_loop_out:
  assumes "\<not> (0 \<le> x \<and> nat x < length scs)"
  shows "lmax_loop scs x lmax_scores = lmax_scores"
  using assms by (subst lmax_loop.simps) (simp only: if_False simp_thms)

lemma lmax_loop_peak:
  assumes "0 \<le> x \<and> nat x < length scs"
    and "get_quality scs (x - 1) \<le> get_quality scs x \<and> get_quality scs x \<ge> get_quality scs (x + 1)"
  shows "lmax_loop scs x lmax_scores = lmax_loop scs (x + 1 + 1) (lmax_scores @ [scs ! nat x])"
  using assms by (subst lmax_loop.simps) (simp only: if_True simp_thms)

lemma lmax_loop_no_peak:
  assumes "0 \<le> x \<and> nat x < length scs"
    and "\<not> (get_quality scs (x - 1) \<le> get_quality scs x \<and> get_quality scs x \<ge> get_quality scs (x + 1))"
  shows "lmax_loop scs x lmax_scores = lmax_loop scs (x + 1) lmax_scores"
  using assms by (subst lmax_loop.simps) (simp only: if_True if_False simp_thms)

lemma lmax_loop_keeps:
  "lmax_scores \<noteq> [] \<Longrightarrow> lmax_loop scs x lmax_scores \<noteq> []"
proof (induction scs x lmax_scores rule: lmax_loop.induct)
  case (1 scs x lmax_scores)
  show ?case
  proof (cases "0 \<le> x \<and> nat x < length scs")
    case False
    then show ?thesis using "1.prems" lmax_loop_out [of x scs lmax_scores] by simp
  next
    case True
    show ?thesis
    proof (cases "get_quality scs (x - 1) \<le> get_quality scs x
                  \<and> get_quality scs x \<ge> get_quality scs (x + 1)")
      case peak: True
      have "lmax_loop scs (x + 1 + 1) (lmax_scores @ [scs ! nat x]) \<noteq> []"
        by (rule "1.IH"(1) [OF True peak]) simp
      then show ?thesis unfolding lmax_loop_peak [OF True peak] .
    next
      case nopeak: False
      have "lmax_loop scs (x + 1) lmax_scores \<noteq> []"
        by (rule "1.IH"(2) [OF True nopeak "1.prems"])
      then show ?thesis unfolding lmax_loop_no_peak [OF True nopeak] .
    qed
  qed
qed

lemma lmax_loop_finds_peak:
  assumes "0 \<le> x" and "nat x < length scs" and "\<forall>s \<in> set scs. 0 \<le> quality s"
    and "get_quality scs (x - 1) \<le> get_quality scs x"
  shows "lmax_loop scs x lmax_scores \<noteq> []"
  using assms
proof (induction scs x lmax_scores rule: lmax_loop.induct)
  case (1 scs x lmax_scores)
  from "1.prems" have inr: "0 \<le> x \<and> nat x < length scs" by simp
  show ?case
  proof (cases "get_quality scs x \<ge> get_quality scs (x + 1)")
    case True
    with "1.prems"(4)
    have "lmax_loop scs x lmax_scores = lmax_loop scs (x + 1 + 1) (lmax_scores @ [scs ! nat x])"
      by (intro lmax_loop_peak inr conjI)
    then show ?thesis by (simp add: lmax_loop_keeps)
  next
    case False
    then have lt: "get_quality scs x < get_quality scs (x + 1)" by simp
    have "0 \<le> get_quality scs x" using "1.prems"(3) by (rule get_quality_nonneg)
    with lt have "get_quality scs (x + 1) \<noteq> 0" by simp
    then have nxt: "nat (x + 1) < length scs"
      by (auto simp: get_quality_def split: if_splits)
    from False
    have e: "lmax_loop scs x lmax_scores = lmax_loop scs (x + 1) lmax_scores"
      by (intro lmax_loop_no_peak inr) simp
    have "lmax_loop scs (x + 1) lmax_scores \<noteq> []"
    proof (rule "1.IH"(2))
      show "0 \<le> x \<and> nat x < length scs" by (rule inr)
      show "\<not> (get_quality scs (x - 1) \<le> get_quality scs x
                \<and> get_quality scs (x + 1) \<le> get_quality scs x)"
        using False by simp
      show "0 \<le> x + 1" using inr by simp
      show "nat (x + 1) < length scs" by (rule nxt)
      show "\<forall>s \<in> set scs. 0 \<le> quality s" by (rule "1.prems"(3))
      show "get_quality scs (x + 1 - 1) \<le> get_quality scs (x + 1)" using lt by simp
    qed
    with e show ?thesis by simp
  qed
qed

lemma select_n_best_scores_nonempty:
  assumes "scs \<noteq> []" and "\<forall>s \<in> set scs. 0 \<le> quality s" and "1 \<le> n"
  shows "select_n_best_scores scs n \<noteq> []"
proof -
  let ?sorted = "sort_key speed scs"
  from assms(1) have "length ?sorted \<noteq> 0" by simp
  then have len: "nat 0 < length ?sorted" by simp
  from assms(2) have nn: "\<forall>s \<in> set ?sorted. 0 \<le> quality s" by simp
  have first: "get_quality ?sorted (0 - 1) \<le> get_quality ?sorted 0"
    using get_quality_nonneg [OF nn, of 0] by (simp add: get_quality_def)
  have "lmax_loop ?sorted 0 [] \<noteq> []"
    by (rule lmax_loop_finds_peak [OF _ len nn first]) simp
  then have "length (sort_key (\<lambda>a. - quality a) (lmax_loop ?sorted 0 [])) \<noteq> 0"
    by simp
  then have "sort_key (\<lambda>a. - quality a) (lmax_loop ?sorted 0 []) \<noteq> []"
    by (simp del: length_sort)
  with assms(3) show ?thesis
    by (simp add: select_n_best_scores_def Let_def take_eq_Nil)
qed

lemma lmax_loop_subset:
  "set (lmax_loop scs x lmax_scores) \<subseteq> set scs \<union> set lmax_scores"
proof (induction scs x lmax_scores rule: lmax_loop.induct)
  case (1 scs x lmax_scores)
  show ?case
  proof (cases "0 \<le> x \<and> nat x < length scs")
    case False
    then show ?thesis using lmax_loop_out [of x scs lmax_scores] by simp
  next
    case True
    show ?thesis
    proof (cases "get_quality scs (x - 1) \<le> get_quality scs x
                  \<and> get_quality scs x \<ge> get_quality scs (x + 1)")
      case peak: True
      from True have "scs ! nat x \<in> set scs" by simp
      with "1.IH"(1) [OF True peak] show ?thesis
        by (auto simp: lmax_loop_peak [OF True peak])
    next
      case nopeak: False
      with "1.IH"(2) [OF True nopeak] show ?thesis
        unfolding lmax_loop_no_peak [OF True nopeak] by simp
    qed
  qed
qed

lemma select_n_best_scores_subset:
  "set (select_n_best_scores scs n) \<subseteq> set scs"
proof -
  have "set (select_n_best_scores scs n) \<subseteq> set (lmax_loop (sort_key speed scs) 0 [])"
    using set_take_subset [of n "sort_key (\<lambda>a. - quality a) (lmax_loop (sort_key speed scs) 0 [])"]
    by (simp add: select_n_best_scores_def Let_def)
  also have "\<dots> \<subseteq> set (sort_key speed scs) \<union> set []" by (rule lmax_loop_subset)
  finally show ?thesis by simp
qed

subsection \<open>The scores of a scan pass\<close>

lemma compare_step_nonneg:
  assumes "0 \<le> quality best_score"
  shows "0 \<le> quality (compare_step wdelta relative_speed center best_score cs)"
  using assms by (simp add: compare_step_def Let_def split: prod.split)

lemma compare_nonneg: "0 \<le> quality (compare wdelta cmp_states relative_speed center)"
proof -
  have "0 \<le> quality best_score \<Longrightarrow>
        0 \<le> quality (foldl (compare_step wdelta relative_speed center) best_score cmp_states)"
    for best_score
    by (induction cmp_states arbitrary: best_score) (simp_all add: compare_step_nonneg)
  then show ?thesis by (simp add: compare_def)
qed

lemma speed_sync_scores_nonneg:
  "\<forall>s \<in> set (speed_sync_scores cmp_states_of P k scan_params center). 0 \<le> quality s"
  by (auto simp: speed_sync_scores_def Let_def compare_nonneg)

lemma speed_sync_scores_nonempty:
  assumes "0 \<le> n_steps scan_params"
  shows "speed_sync_scores cmp_states_of P k scan_params center \<noteq> []"
  using assms by (simp add: speed_sync_scores_def)

lemma center_speeds_nonempty:
  assumes "speeds \<noteq> []" and "0 \<le> n_center_steps scan_params"
  shows "center_speeds scan_params speeds \<noteq> []"
proof -
  from assms(1) obtain spd rest where "speeds = spd # rest" by (cases speeds) auto
  with assms(2) show ?thesis by (simp add: center_speeds_def)
qed

lemma those_map_Some:
  assumes "\<forall>x \<in> set xs. \<exists>y. f x = Some y"
  shows "those (map f xs) = Some (map (\<lambda>x. the (f x)) xs)"
  using assms by (induction xs) auto

lemma run_search_returns:
  assumes nt: "1 \<le> n_threads"
    and gs: "\<forall>kss \<in> set vec. \<exists>speeds. get_speeds (scores kss) = Some speeds \<and> speeds \<noteq> []"
    and ns: "0 \<le> n_steps scan_params" and nc: "0 \<le> n_center_steps scan_params"
  shows "\<exists>vec'. run_search cmp_states_of P n_threads scan_params get_speeds vec = Some vec'
           \<and> map key vec' = map key vec
           \<and> (\<forall>kss \<in> set vec'. scores kss \<noteq> [] \<and> (\<forall>s \<in> set (scores kss). 0 \<le> quality s))"
proof -
  let ?f = "\<lambda>kss. get_speeds (scores kss)"
  let ?speeds_vec = "map (\<lambda>kss. the (?f kss)) vec"
  let ?centers_vec = "map (center_speeds scan_params) ?speeds_vec"
  let ?n_jobs = "int (sum_list (map length ?centers_vec))"
  let ?upd = "\<lambda>(kss, centers).
      kss\<lparr>scores := concat (map (speed_sync_scores cmp_states_of P (key kss) scan_params) centers)\<rparr>"
  let ?vec' = "map ?upd (zip vec ?centers_vec)"
  from gs have "\<forall>kss \<in> set vec. \<exists>y. ?f kss = Some y" by blast
  then have th: "those (map ?f vec) = Some ?speeds_vec" by (rule those_map_Some)
  have "0 \<le> ?n_jobs" by simp
  with nt split_jobs_refines [of ?n_jobs n_threads]
  obtain counts where sj: "split_jobs ?n_jobs n_threads = Some counts" by blast
  with nt split_jobs_sum_bound [of ?n_jobs n_threads counts]
  have su: "sum_list counts = ?n_jobs" by simp
  have r: "run_search cmp_states_of P n_threads scan_params get_speeds vec = Some ?vec'"
    unfolding run_search_def th option.case Let_def sj su by simp
  have k: "map key ?vec' = map key vec"
    by (rule nth_equalityI) simp_all
  have p: "scores kss \<noteq> [] \<and> (\<forall>s \<in> set (scores kss). 0 \<le> quality s)" if "kss \<in> set ?vec'" for kss
  proof -
    from that obtain kss0 centers where z: "(kss0, centers) \<in> set (zip vec ?centers_vec)"
      and e: "kss = ?upd (kss0, centers)" by auto
    from z have "kss0 \<in> set vec" by (rule set_zip_leftD)
    from z obtain i where i: "i < length vec" "kss0 = vec ! i" "centers = ?centers_vec ! i"
      by (auto simp: set_zip)
    with gs obtain speeds where "get_speeds (scores (vec ! i)) = Some speeds" "speeds \<noteq> []"
      by (metis nth_mem)
    with i nc have "centers \<noteq> []" by (simp add: center_speeds_nonempty)
    then obtain c rest where "centers = c # rest" by (cases centers) auto
    with ns have "scores kss \<noteq> []"
      unfolding e by (simp add: speed_sync_scores_nonempty)
    moreover have "\<forall>s \<in> set (scores kss). 0 \<le> quality s"
      unfolding e using speed_sync_scores_nonneg by fastforce
    ultimately show ?thesis by simp
  qed
  from r k p show ?thesis by blast
qed

lemma collect_results_returns:
  assumes "\<forall>kss \<in> set vec. scores kss \<noteq> []"
  shows "\<exists>rs. collect_results window_cos vec results = Some rs"
  using assms
proof (induction vec arbitrary: results)
  case Nil
  then show ?case by simp
next
  case (Cons kss rest)
  then have "scores kss \<noteq> []" by simp
  then have "length (sort_key speed (scores kss)) \<noteq> 0" by simp
  then have "sort_key speed (scores kss) \<noteq> []" by (simp del: length_sort)
  then obtain b where b: "best_speed_of window_cos (scores kss) = Some b"
    by (simp add: best_speed_of_def score_smooth_find_best_def Let_def)
  from Cons have "\<And>results. \<exists>rs. collect_results window_cos rest results = Some rs" by simp
  then show ?case by (simp add: b Let_def)
qed

lemma scan_passes_returns:
  assumes "1 \<le> n_threads"
  shows "\<exists>vec3. scan_passes cmp_states_of P n_threads key_list = Some vec3
           \<and> map key vec3 = key_list
           \<and> (\<forall>kss \<in> set vec3. scores kss \<noteq> [] \<and> (\<forall>s \<in> set (scores kss). 0 \<le> quality s))"
proof -
  let ?vec0 = "map (\<lambda>k. \<lparr>key = k, scores = []\<rparr>) key_list"
  have s1: "0 \<le> n_steps (scan1 P)" "0 \<le> n_center_steps (scan1 P)"
    and s2: "0 \<le> n_steps (scan2 P)" "0 \<le> n_center_steps (scan2 P)"
    and s3: "0 \<le> n_steps scan3" "0 \<le> n_center_steps scan3"
    by (simp_all add: scan1_def scan2_def scan3_def)
  have nb: "1 \<le> n_best P" by (simp add: n_best_def)
  have k0: "map key ?vec0 = key_list" by (simp add: comp_def)
  from run_search_returns [OF assms _ s1, of ?vec0 "\<lambda>scs. Some [1]" cmp_states_of P]
  obtain vec1 where r1: "run_search cmp_states_of P n_threads (scan1 P) (\<lambda>scs. Some [1]) ?vec0 = Some vec1"
    and k1: "map key vec1 = map key ?vec0"
    and p1: "\<forall>kss \<in> set vec1. scores kss \<noteq> [] \<and> (\<forall>s \<in> set (scores kss). 0 \<le> quality s)"
    by auto
  from p1 nb have "\<forall>kss \<in> set vec1. \<exists>speeds. scan2_speeds P (scores kss) = Some speeds \<and> speeds \<noteq> []"
    by (simp add: scan2_speeds_def select_n_best_scores_nonempty)
  from run_search_returns [OF assms this s2, of cmp_states_of P]
  obtain vec2 where r2: "run_search cmp_states_of P n_threads (scan2 P) (scan2_speeds P) vec1 = Some vec2"
    and k2: "map key vec2 = map key vec1"
    and p2: "\<forall>kss \<in> set vec2. scores kss \<noteq> [] \<and> (\<forall>s \<in> set (scores kss). 0 \<le> quality s)"
    by auto
  let ?vec2' = "map (\<lambda>kss. kss\<lparr>scores := select_n_best_scores (scores kss) 1\<rparr>) vec2"
  have k2': "map key ?vec2' = map key vec2" by (simp add: comp_def)
  have "\<forall>kss \<in> set ?vec2'. \<exists>speeds. scan3_speeds (scores kss) = Some speeds \<and> speeds \<noteq> []"
  proof
    fix kss assume "kss \<in> set ?vec2'"
    then obtain kss0 where k0: "kss0 \<in> set vec2" and e: "kss = kss0\<lparr>scores := select_n_best_scores (scores kss0) 1\<rparr>"
      by auto
    from k0 p2 have "select_n_best_scores (scores kss0) 1 \<noteq> []"
      by (simp add: select_n_best_scores_nonempty)
    then show "\<exists>speeds. scan3_speeds (scores kss) = Some speeds \<and> speeds \<noteq> []"
      unfolding e scan3_speeds_def by (cases "select_n_best_scores (scores kss0) 1") simp_all
  qed
  from run_search_returns [OF assms this s3, of cmp_states_of P]
  obtain vec3 where r3: "run_search cmp_states_of P n_threads scan3 scan3_speeds ?vec2' = Some vec3"
    and k3: "map key vec3 = map key ?vec2'"
    and p3: "\<forall>kss \<in> set vec3. scores kss \<noteq> [] \<and> (\<forall>s \<in> set (scores kss). 0 \<le> quality s)"
    by auto
  have "scan_passes cmp_states_of P n_threads key_list = Some vec3"
    unfolding scan_passes_def Let_def r1 option.case r2 r3 ..
  moreover have "map key vec3 = key_list"
    using k0 k1 k2 k2' k3 by simp
  ultimately show ?thesis using p3 by blast
qed

lemma detect_speed_returns:
  assumes "1 \<le> n_threads"
  shows "\<exists>results. detect_speed cmp_states_of window_cos P n_threads key_list in_data print_results = Some results"
proof (cases "sample_rate in_data \<noteq> 0 \<and> real (n_frames in_data) / real_of_int (sample_rate in_data) < 25 / 100")
  case True
  then show ?thesis by (simp add: detect_speed_def Let_def)
next
  case False
  from scan_passes_returns [OF assms, of cmp_states_of P key_list]
  obtain vec3 where r: "scan_passes cmp_states_of P n_threads key_list = Some vec3"
    and p3: "\<forall>kss \<in> set vec3. scores kss \<noteq> []"
    by blast
  from collect_results_returns [OF p3, of window_cos "[]"]
  obtain rs where "collect_results window_cos vec3 [] = Some rs" by blast
  with False r show ?thesis
    by (simp add: detect_speed_def Let_def)
qed

text \<open>The last loop appends exactly the estimates that pass both tests.\<close>

definition passes_gate :: "(real \<Rightarrow> real) \<Rightarrow> 'k KeySpeedSearch \<Rightarrow> bool" where
  "passes_gate window_cos kss \<longleftrightarrow>
     best_quality_of (scores kss) > 4 / 10
     \<and> (the (best_speed_of window_cos (scores kss)) < 9999 / 10000
        \<or> the (best_speed_of window_cos (scores kss)) > 10001 / 10000)"

lemma collect_results_filter:
  assumes "collect_results window_cos vec results = Some rs"
  shows "rs = results @ map (\<lambda>kss. (key kss, the (best_speed_of window_cos (scores kss))))
                          (filter (passes_gate window_cos) vec)"
  using assms
proof (induction vec arbitrary: results)
  case Nil
  then show ?case by simp
next
  case (Cons kss rest)
  from Cons.prems obtain b where b: "best_speed_of window_cos (scores kss) = Some b"
    by (cases "best_speed_of window_cos (scores kss)") simp_all
  show ?case
  proof (cases "passes_gate window_cos kss")
    case True
    with b Cons.prems have "collect_results window_cos rest (results @ [(key kss, b)]) = Some rs"
      by (simp add: passes_gate_def speed_sync_threshold_def Let_def split: if_splits)
    from Cons.IH [OF this] True b show ?thesis by simp
  next
    case False
    with b Cons.prems have "collect_results window_cos rest results = Some rs"
      by (auto simp: passes_gate_def speed_sync_threshold_def Let_def split: if_splits)
    from Cons.IH [OF this] False show ?thesis by simp
  qed
qed

lemma collect_results_all_Some:
  assumes "collect_results window_cos vec results = Some rs" and "kss \<in> set vec"
  shows "\<exists>b. best_speed_of window_cos (scores kss) = Some b"
  using assms
proof (induction vec arbitrary: results)
  case Nil
  then show ?case by simp
next
  case (Cons a rest)
  from Cons.prems(1) obtain b where b: "best_speed_of window_cos (scores a) = Some b"
    by (cases "best_speed_of window_cos (scores a)") simp_all
  show ?case
  proof (cases "kss = a")
    case True
    with b show ?thesis by simp
  next
    case False
    with Cons.prems(2) have m: "kss \<in> set rest" by simp
    from Cons.prems(1) b obtain results' where "collect_results window_cos rest results' = Some rs"
      by (auto simp: Let_def split: if_splits)
    from Cons.IH [OF this m] show ?thesis .
  qed
qed

subsection \<open>Claims about the speed detector\<close>

text \<open>
  Claim C10. For a score list that is not empty and whose qualities are not negative, and
  for \<open>n \<ge> 1\<close>, \<^verbatim>\<open>select_n_best_scores (scores, n)\<close> leaves a list that is not empty: a
  neighbour outside the vector counts as quality 0, so some entry satisfies the peak
  condition. Hence the read of \<^verbatim>\<open>scores[0]\<close> after \<^verbatim>\<open>select_n_best_scores (scores, 1)\<close>
  finds an element, and \<^verbatim>\<open>detect_speed\<close>, whose scores come from \<^verbatim>\<open>compare\<close> and are
  never negative, does not read an empty vector: it returns a result list (for a thread
  pool with at least one thread).
\<close>

theorem select_n_best_scores_keeps_a_peak:
  "(scs \<noteq> [] \<and> (\<forall>s \<in> set scs. 0 \<le> quality s) \<and> 1 \<le> n \<longrightarrow> select_n_best_scores scs n \<noteq> [])
   \<and> (scs \<noteq> [] \<and> (\<forall>s \<in> set scs. 0 \<le> quality s) \<longrightarrow>
        (\<exists>s. s \<in> set scs \<and> scan3_speeds (select_n_best_scores scs 1) = Some [speed s]))
   \<and> (1 \<le> n_threads \<longrightarrow>
        (\<exists>results. detect_speed cmp_states_of window_cos P n_threads key_list in_data print_results
                     = Some results))"
proof -
  have a: "scs \<noteq> [] \<and> (\<forall>s \<in> set scs. 0 \<le> quality s) \<and> 1 \<le> n \<longrightarrow> select_n_best_scores scs n \<noteq> []"
    by (simp add: select_n_best_scores_nonempty)
  have b: "scs \<noteq> [] \<and> (\<forall>s \<in> set scs. 0 \<le> quality s) \<longrightarrow>
        (\<exists>s. s \<in> set scs \<and> scan3_speeds (select_n_best_scores scs 1) = Some [speed s])"
  proof
    assume h: "scs \<noteq> [] \<and> (\<forall>s \<in> set scs. 0 \<le> quality s)"
    then have "select_n_best_scores scs 1 \<noteq> []"
      by (simp add: select_n_best_scores_nonempty)
    then obtain s rest where e: "select_n_best_scores scs 1 = s # rest"
      by (cases "select_n_best_scores scs 1") auto
    then have "s \<in> set (select_n_best_scores scs 1)" by simp
    with select_n_best_scores_subset [of scs 1] have "s \<in> set scs" by blast
    with e show "\<exists>s. s \<in> set scs \<and> scan3_speeds (select_n_best_scores scs 1) = Some [speed s]"
      by (auto simp: scan3_speeds_def)
  qed
  have c: "1 \<le> n_threads \<longrightarrow>
        (\<exists>results. detect_speed cmp_states_of window_cos P n_threads key_list in_data print_results
                     = Some results)"
    by (simp add: detect_speed_returns)
  from a b c show ?thesis by blast
qed

theorem select_n_best_scores_keeps_a_peak_witness:
  "[\<lparr>speed = 1, quality = 0\<rparr>, \<lparr>speed = 2, quality = 3\<rparr>, \<lparr>speed = 0, quality = 3\<rparr>] \<noteq> []
   \<and> (1::nat) \<le> 2
   \<and> select_n_best_scores
        [\<lparr>speed = 1, quality = 0\<rparr>, \<lparr>speed = 2, quality = 3\<rparr>, \<lparr>speed = 0, quality = 3\<rparr>] 2 \<noteq> []
   \<and> select_n_best_scores
        [\<lparr>speed = 1, quality = 0\<rparr>, \<lparr>speed = 2, quality = 3\<rparr>, \<lparr>speed = 0, quality = 3\<rparr>] 2
      = [\<lparr>speed = 0, quality = 3\<rparr>, \<lparr>speed = 2, quality = 3\<rparr>]
   \<and> scan3_speeds (select_n_best_scores
        [\<lparr>speed = 1, quality = 0\<rparr>, \<lparr>speed = 2, quality = 3\<rparr>, \<lparr>speed = 0, quality = 3\<rparr>] 1)
      = Some [0]
   \<and> (1::int) \<le> 4
   \<and> (\<exists>results. detect_speed (\<lambda>k scan_params center relative_speed. []) (\<lambda>x. 1)
                    \<lparr>water_delta = 1 / 100, detect_speed_patient = False\<rparr> 4 [0::nat]
                    \<lparr>samples = replicate 20000 0, n_channels = 1, sample_rate = 44100, bit_depth = 16\<rparr>
                    False = Some results)"
proof -
  let ?scs = "[\<lparr>speed = 1, quality = 0\<rparr>, \<lparr>speed = 2, quality = 3\<rparr>, \<lparr>speed = 0, quality = 3\<rparr>]"
  have q: "\<forall>s \<in> set ?scs. 0 \<le> quality s" by simp
  have l1: "lmax_loop [\<lparr>speed = 0, quality = 3\<rparr>, \<lparr>speed = 1, quality = 0\<rparr>, \<lparr>speed = 2, quality = 3\<rparr>] 0 []
            = [\<lparr>speed = 0, quality = 3\<rparr>, \<lparr>speed = 2, quality = 3\<rparr>]"
    by (simp add: lmax_loop.simps get_quality_def)
  have v2: "select_n_best_scores ?scs 2 = [\<lparr>speed = 0, quality = 3\<rparr>, \<lparr>speed = 2, quality = 3\<rparr>]"
    by (simp add: select_n_best_scores_def Let_def l1)
  have v1: "select_n_best_scores ?scs 1 = [\<lparr>speed = 0, quality = 3\<rparr>]"
    by (simp add: select_n_best_scores_def Let_def l1)
  from select_n_best_scores_keeps_a_peak
         [of ?scs 2 4 "\<lambda>k scan_params center relative_speed. []" "\<lambda>x. 1"
             "\<lparr>water_delta = 1 / 100, detect_speed_patient = False\<rparr>" "[0::nat]"
             "\<lparr>samples = replicate 20000 0, n_channels = 1, sample_rate = 44100, bit_depth = 16\<rparr>" False]
       q
  have "select_n_best_scores ?scs 2 \<noteq> []"
    and "\<exists>results. detect_speed (\<lambda>k scan_params center relative_speed. []) (\<lambda>x. 1)
                    \<lparr>water_delta = 1 / 100, detect_speed_patient = False\<rparr> 4 [0::nat]
                    \<lparr>samples = replicate 20000 0, n_channels = 1, sample_rate = 44100, bit_depth = 16\<rparr>
                    False = Some results"
    by simp_all
  with v2 v1 show ?thesis by (simp add: scan3_speeds_def)
qed

text \<open>
  Claim C4. Every entry that \<^verbatim>\<open>detect_speed\<close> pushes into its result list has a best
  quality above 0.4 and a speed below 0.9999 or above 1.0001: the last loop appends, in
  the order of the keys, exactly the estimates that pass both tests, so an estimate with a
  speed in \<open>[0.9999, 1.0001]\<close> or a quality of at most 0.4 is not returned.
\<close>

theorem detect_speed_results_gated:
  "(collect_results window_cos vec [] = Some results \<longrightarrow>
      results = map (\<lambda>kss. (key kss, the (best_speed_of window_cos (scores kss))))
                  (filter (\<lambda>kss. best_quality_of (scores kss) > 4 / 10
                                \<and> (the (best_speed_of window_cos (scores kss)) < 9999 / 10000
                                   \<or> the (best_speed_of window_cos (scores kss)) > 10001 / 10000))
                          vec))
   \<and> (detect_speed cmp_states_of window_cos P n_threads key_list in_data print_results = Some results' \<longrightarrow>
        (\<forall>(k, best_speed) \<in> set results'.
            (best_speed < 9999 / 10000 \<or> best_speed > 10001 / 10000)
          \<and> (\<exists>vec3 kss. scan_passes cmp_states_of P n_threads key_list = Some vec3
                \<and> kss \<in> set vec3 \<and> key kss = k
                \<and> best_speed_of window_cos (scores kss) = Some best_speed
                \<and> best_quality_of (scores kss) > 4 / 10)))"
proof -
  have g: "passes_gate window_cos =
             (\<lambda>kss. best_quality_of (scores kss) > 4 / 10
                   \<and> (the (best_speed_of window_cos (scores kss)) < 9999 / 10000
                      \<or> the (best_speed_of window_cos (scores kss)) > 10001 / 10000))"
    by (rule ext) (simp add: passes_gate_def)
  have a: "collect_results window_cos vec [] = Some results \<longrightarrow>
      results = map (\<lambda>kss. (key kss, the (best_speed_of window_cos (scores kss))))
                  (filter (\<lambda>kss. best_quality_of (scores kss) > 4 / 10
                                \<and> (the (best_speed_of window_cos (scores kss)) < 9999 / 10000
                                   \<or> the (best_speed_of window_cos (scores kss)) > 10001 / 10000))
                          vec)"
    using collect_results_filter [of window_cos vec "[]" results] unfolding g by simp
  have b: "\<forall>(k, best_speed) \<in> set results'.
            (best_speed < 9999 / 10000 \<or> best_speed > 10001 / 10000)
          \<and> (\<exists>vec3 kss. scan_passes cmp_states_of P n_threads key_list = Some vec3
                \<and> kss \<in> set vec3 \<and> key kss = k
                \<and> best_speed_of window_cos (scores kss) = Some best_speed
                \<and> best_quality_of (scores kss) > 4 / 10)"
    if d: "detect_speed cmp_states_of window_cos P n_threads key_list in_data print_results = Some results'"
  proof (cases "sample_rate in_data \<noteq> 0 \<and> real (n_frames in_data) / real_of_int (sample_rate in_data) < 25 / 100")
    case True
    with d have "results' = []" by (simp add: detect_speed_def Let_def)
    then show ?thesis by simp
  next
    case False
    with d obtain vec3 where sp: "scan_passes cmp_states_of P n_threads key_list = Some vec3"
      and cr: "collect_results window_cos vec3 [] = Some results'"
      by (auto simp: detect_speed_def Let_def split: option.splits)
    from collect_results_filter [OF cr]
    have r: "results' = map (\<lambda>kss. (key kss, the (best_speed_of window_cos (scores kss))))
                          (filter (passes_gate window_cos) vec3)"
      by simp
    show ?thesis
    proof (clarify, intro conjI)
      fix k best_speed assume "(k, best_speed) \<in> set results'"
      with r obtain kss where m: "kss \<in> set vec3" and pg: "passes_gate window_cos kss"
        and k: "k = key kss" and bs: "best_speed = the (best_speed_of window_cos (scores kss))"
        by auto
      from collect_results_all_Some [OF cr m] bs
      have so: "best_speed_of window_cos (scores kss) = Some best_speed" by auto
      from pg bs show "best_speed < 9999 / 10000 \<or> best_speed > 10001 / 10000"
        by (simp add: passes_gate_def)
      from pg sp m k so
      show "\<exists>vec3 kss. scan_passes cmp_states_of P n_threads key_list = Some vec3
                \<and> kss \<in> set vec3 \<and> key kss = k
                \<and> best_speed_of window_cos (scores kss) = Some best_speed
                \<and> best_quality_of (scores kss) > 4 / 10"
        by (auto simp: passes_gate_def)
    qed
  qed
  from a b show ?thesis by blast
qed

theorem detect_speed_results_gated_witness:
  "collect_results (\<lambda>x. 1)
     [\<lparr>key = 1::nat, scores = [\<lparr>speed = 11 / 10, quality = 1 / 2\<rparr>, \<lparr>speed = 1100001 / 1000000, quality = 1 / 2\<rparr>]\<rparr>,
      \<lparr>key = 2, scores = [\<lparr>speed = 11 / 10, quality = 3 / 10\<rparr>, \<lparr>speed = 1100001 / 1000000, quality = 4 / 10\<rparr>]\<rparr>,
      \<lparr>key = 3, scores = [\<lparr>speed = 1, quality = 1 / 2\<rparr>, \<lparr>speed = 1000001 / 1000000, quality = 1 / 2\<rparr>]\<rparr>] []
     = Some [(1, 11 / 10)]
   \<and> [(1::nat, 11 / 10)] =
       map (\<lambda>kss. (key kss, the (best_speed_of (\<lambda>x. 1) (scores kss))))
         (filter (\<lambda>kss. best_quality_of (scores kss) > 4 / 10
                       \<and> (the (best_speed_of (\<lambda>x. 1) (scores kss)) < 9999 / 10000
                          \<or> the (best_speed_of (\<lambda>x. 1) (scores kss)) > 10001 / 10000))
          [\<lparr>key = 1::nat, scores = [\<lparr>speed = 11 / 10, quality = 1 / 2\<rparr>, \<lparr>speed = 1100001 / 1000000, quality = 1 / 2\<rparr>]\<rparr>,
           \<lparr>key = 2, scores = [\<lparr>speed = 11 / 10, quality = 3 / 10\<rparr>, \<lparr>speed = 1100001 / 1000000, quality = 4 / 10\<rparr>]\<rparr>,
           \<lparr>key = 3, scores = [\<lparr>speed = 1, quality = 1 / 2\<rparr>, \<lparr>speed = 1000001 / 1000000, quality = 1 / 2\<rparr>]\<rparr>])
   \<and> detect_speed (\<lambda>k scan_params center relative_speed. []) (\<lambda>x. 1)
        \<lparr>water_delta = 1 / 100, detect_speed_patient = False\<rparr> 4 [0::nat]
        \<lparr>samples = replicate 10000 0, n_channels = 1, sample_rate = 44100, bit_depth = 16\<rparr> False
     = Some []"
proof -
  let ?vec = "[\<lparr>key = 1::nat, scores = [\<lparr>speed = 11 / 10, quality = 1 / 2\<rparr>, \<lparr>speed = 1100001 / 1000000, quality = 1 / 2\<rparr>]\<rparr>,
      \<lparr>key = 2, scores = [\<lparr>speed = 11 / 10, quality = 3 / 10\<rparr>, \<lparr>speed = 1100001 / 1000000, quality = 4 / 10\<rparr>]\<rparr>,
      \<lparr>key = 3, scores = [\<lparr>speed = 1, quality = 1 / 2\<rparr>, \<lparr>speed = 1000001 / 1000000, quality = 1 / 2\<rparr>]\<rparr>]"
  have e: "collect_results (\<lambda>x. 1) ?vec [] = Some [(1, 11 / 10)]"
    by (simp add: best_speed_of_def score_smooth_find_best_def smooth_loop.simps best_quality_of_def
                  scan3_def scan3_smooth_distance_def speed_sync_threshold_def Let_def)
  have d: "detect_speed (\<lambda>k scan_params center relative_speed. []) (\<lambda>x. 1)
        \<lparr>water_delta = 1 / 100, detect_speed_patient = False\<rparr> 4 [0::nat]
        \<lparr>samples = replicate 10000 0, n_channels = 1, sample_rate = 44100, bit_depth = 16\<rparr> False
     = Some []"
    by (simp add: detect_speed_def n_frames_def)
  from detect_speed_results_gated [of "\<lambda>x. 1" ?vec "[(1, 11 / 10)]"] e d
  show ?thesis by blast
qed

section \<open>The sync finder (\<^verbatim>\<open>syncfinder.cc\<close>)\<close>

subsection \<open>Search scores and the local mean\<close>

text \<open>\<^verbatim>\<open>SyncFinder::SearchScore\<close> with its method \<^verbatim>\<open>abs_quality\<close>.\<close>

record SearchScore =
  index :: nat
  raw_quality :: real
  local_mean :: real


definition local_mean_distance :: int where
  "local_mean_distance = 20"

text \<open>
  The second part of \<^verbatim>\<open>search_approx\<close>: the scores of a key are sorted by index, then
  the loop over \<open>i\<close> writes the local mean of every score into the vector it reads. The
  inner loop over \<open>j\<close> from \<open>-local_mean_distance\<close> to \<open>local_mean_distance\<close> is
  \<open>local_mean_sums\<close>; it returns the sum \<^verbatim>\<open>avg\<close> and the count \<^verbatim>\<open>n\<close>.
\<close>

definition local_mean_sums :: "SearchScore list \<Rightarrow> int \<Rightarrow> real \<times> int" where
  "local_mean_sums scs i =
     foldl (\<lambda>(avg, n) j.
              if \<bar>j\<bar> \<ge> 4
              then (let idx = i + j
                    in if idx \<ge> 0 \<and> idx < int (length scs)
                       then (avg + raw_quality (scs ! nat idx), n + 1)
                       else (avg, n))
              else (avg, n))
       (0, 0) [- local_mean_distance .. local_mean_distance]"

definition local_mean_at :: "SearchScore list \<Rightarrow> int \<Rightarrow> real" where
  "local_mean_at scs i =
     (let (avg, n) = local_mean_sums scs i
      in if n > 0 then avg / real_of_int n else avg)"

function local_mean_loop :: "SearchScore list \<Rightarrow> nat \<Rightarrow> SearchScore list" where
  "local_mean_loop scs i =
     (if i < length scs
      then local_mean_loop (scs[i := (scs ! i)\<lparr>local_mean := local_mean_at scs (int i)\<rparr>]) (i + 1)
      else scs)"
  by pat_completeness auto
termination
  by (relation "measure (\<lambda>(scs, i). length scs - i)") auto

declare local_mean_loop.simps [simp del]

definition compute_local_means :: "SearchScore list \<Rightarrow> SearchScore list" where
  "compute_local_means scs = local_mean_loop (sort_key index scs) 0"

text \<open>The inner loop adds the raw qualities of the neighbours at distance 4 to 20.\<close>

definition mean_neighbours :: "nat \<Rightarrow> nat \<Rightarrow> nat set" where
  "mean_neighbours len i = {k. k < len \<and> 4 \<le> \<bar>int k - int i\<bar> \<and> \<bar>int k - int i\<bar> \<le> 20}"

lemma finite_mean_neighbours [simp]: "finite (mean_neighbours len i)"
  by (simp add: mean_neighbours_def)

lemma local_mean_fold:
  "foldl (\<lambda>(avg, n) j.
              if \<bar>j\<bar> \<ge> 4
              then (let idx = i + j
                    in if idx \<ge> 0 \<and> idx < int (length scs)
                       then (avg + raw_quality (scs ! nat idx), n + 1)
                       else (avg, n))
              else (avg, n))
       (a, m) js
   = (a + sum_list (map (\<lambda>j. raw_quality (scs ! nat (i + j)))
                      (filter (\<lambda>j. \<bar>j\<bar> \<ge> 4 \<and> i + j \<ge> 0 \<and> i + j < int (length scs)) js)),
      m + int (length (filter (\<lambda>j. \<bar>j\<bar> \<ge> 4 \<and> i + j \<ge> 0 \<and> i + j < int (length scs)) js)))"
  by (induction js arbitrary: a m) (simp_all add: Let_def)

lemma mean_offsets_set:
  "set (filter (\<lambda>j. \<bar>j\<bar> \<ge> 4 \<and> int i + j \<ge> 0 \<and> int i + j < int len)
              [- local_mean_distance .. local_mean_distance])
   = {j. - 20 \<le> j \<and> j \<le> 20 \<and> \<bar>j\<bar> \<ge> 4 \<and> int i + j \<ge> 0 \<and> int i + j < int len}"
  unfolding set_filter set_upto local_mean_distance_def by auto

lemma mean_offsets_to_neighbours:
  "(\<lambda>j. nat (int i + j)) ` {j. - 20 \<le> j \<and> j \<le> 20 \<and> \<bar>j\<bar> \<ge> 4 \<and> int i + j \<ge> 0 \<and> int i + j < int len}
   \<subseteq> mean_neighbours len i"
proof
  fix k
  assume "k \<in> (\<lambda>j. nat (int i + j)) `
               {j. - 20 \<le> j \<and> j \<le> 20 \<and> \<bar>j\<bar> \<ge> 4 \<and> int i + j \<ge> 0 \<and> int i + j < int len}"
  then obtain j where k: "k = nat (int i + j)"
    and j: "- 20 \<le> j" "j \<le> 20" "\<bar>j\<bar> \<ge> 4" "int i + j \<ge> 0" "int i + j < int len"
    by blast
  from k j have e: "int k - int i = j" by simp
  from k j have l: "k < len" by linarith
  from j have a: "\<bar>j\<bar> \<le> 20" by linarith
  from e l a j(3) show "k \<in> mean_neighbours len i"
    unfolding mean_neighbours_def by simp
qed

lemma mean_neighbours_to_offsets:
  "(\<lambda>k. int k - int i) ` mean_neighbours len i
   \<subseteq> {j. - 20 \<le> j \<and> j \<le> 20 \<and> \<bar>j\<bar> \<ge> 4 \<and> int i + j \<ge> 0 \<and> int i + j < int len}"
proof
  fix j assume "j \<in> (\<lambda>k. int k - int i) ` mean_neighbours len i"
  then obtain k where j: "j = int k - int i"
    and k: "k < len" "4 \<le> \<bar>int k - int i\<bar>" "\<bar>int k - int i\<bar> \<le> 20"
    unfolding mean_neighbours_def by blast
  from k(3) have "- 20 \<le> int k - int i" "int k - int i \<le> 20" by linarith+
  with j k
  show "j \<in> {j. - 20 \<le> j \<and> j \<le> 20 \<and> \<bar>j\<bar> \<ge> 4 \<and> int i + j \<ge> 0 \<and> int i + j < int len}"
    by simp
qed

lemma local_mean_sums_eq:
  "local_mean_sums scs (int i) =
     (\<Sum>k \<in> mean_neighbours (length scs) i. raw_quality (scs ! k),
      int (card (mean_neighbours (length scs) i)))"
proof -
  let ?P = "\<lambda>j. \<bar>j\<bar> \<ge> 4 \<and> int i + j \<ge> 0 \<and> int i + j < int (length scs)"
  let ?js = "filter ?P [- local_mean_distance .. local_mean_distance]"
  let ?J = "{j. - 20 \<le> j \<and> j \<le> 20 \<and> \<bar>j\<bar> \<ge> 4 \<and> int i + j \<ge> 0 \<and> int i + j < int (length scs)}"
  have d: "distinct ?js" by simp
  have s: "set ?js = ?J" by (rule mean_offsets_set)
  have sum1: "sum_list (map (\<lambda>j. raw_quality (scs ! nat (int i + j))) ?js)
              = (\<Sum>j \<in> ?J. raw_quality (scs ! nat (int i + j)))"
    unfolding sum_list_distinct_conv_sum_set [OF d] s ..
  have len1: "length ?js = card ?J"
    unfolding distinct_card [OF d, symmetric] s ..
  have bij: "bij_betw (\<lambda>j. nat (int i + j)) ?J (mean_neighbours (length scs) i)"
  proof (rule bij_betw_byWitness [where f' = "\<lambda>k. int k - int i"])
    show "\<forall>j \<in> ?J. int (nat (int i + j)) - int i = j" by simp
    show "\<forall>k \<in> mean_neighbours (length scs) i. nat (int i + (int k - int i)) = k" by simp
    show "(\<lambda>j. nat (int i + j)) ` ?J \<subseteq> mean_neighbours (length scs) i"
      by (rule mean_offsets_to_neighbours)
    show "(\<lambda>k. int k - int i) ` mean_neighbours (length scs) i \<subseteq> ?J"
      by (rule mean_neighbours_to_offsets)
  qed
  have sum2: "(\<Sum>j \<in> ?J. raw_quality (scs ! nat (int i + j)))
              = (\<Sum>k \<in> mean_neighbours (length scs) i. raw_quality (scs ! k))"
    by (rule sum.reindex_bij_betw [OF bij])
  have card2: "card ?J = card (mean_neighbours (length scs) i)"
    by (rule bij_betw_same_card [OF bij])
  show ?thesis
    unfolding local_mean_sums_def local_mean_fold sum1 sum2 len1 card2 by simp
qed

lemma local_mean_at_eq:
  "local_mean_at scs (int i) =
     (if mean_neighbours (length scs) i = {} then 0
      else (\<Sum>k \<in> mean_neighbours (length scs) i. raw_quality (scs ! k))
             / real (card (mean_neighbours (length scs) i)))"
proof (cases "mean_neighbours (length scs) i = {}")
  case True
  then show ?thesis by (simp add: local_mean_at_def local_mean_sums_eq)
next
  case False
  then have "0 < card (mean_neighbours (length scs) i)"
    by (simp add: card_gt_0_iff)
  with False show ?thesis by (simp add: local_mean_at_def local_mean_sums_eq)
qed

lemma local_mean_at_cong:
  assumes "map raw_quality xs = map raw_quality ys"
  shows "local_mean_at xs (int i) = local_mean_at ys (int i)"
proof -
  from assms have len: "length xs = length ys" by (rule map_eq_imp_length_eq)
  have "raw_quality (xs ! k) = raw_quality (ys ! k)" if "k < length xs" for k
    using assms that len by (metis nth_map)
  then have "(\<Sum>k \<in> mean_neighbours (length xs) i. raw_quality (xs ! k))
             = (\<Sum>k \<in> mean_neighbours (length xs) i. raw_quality (ys ! k))"
    by (intro sum.cong) (auto simp: mean_neighbours_def)
  then show ?thesis by (simp add: local_mean_at_eq len)
qed

text \<open>The outer loop keeps indices and raw qualities and sets every local mean.\<close>

lemma local_mean_loop_spec:
  "length (local_mean_loop scs i) = length scs
   \<and> map raw_quality (local_mean_loop scs i) = map raw_quality scs
   \<and> map index (local_mean_loop scs i) = map index scs
   \<and> (\<forall>k. i \<le> k \<and> k < length scs \<longrightarrow>
         local_mean (local_mean_loop scs i ! k) = local_mean_at scs (int k))
   \<and> (\<forall>k. k < i \<and> k < length scs \<longrightarrow> local_mean_loop scs i ! k = scs ! k)"
proof (induction scs i rule: local_mean_loop.induct)
  case (1 scs i)
  show ?case
  proof (cases "i < length scs")
    case False
    then have "local_mean_loop scs i = scs" by (subst local_mean_loop.simps) simp
    with False show ?thesis by simp
  next
    case True
    let ?scs' = "scs[i := (scs ! i)\<lparr>local_mean := local_mean_at scs (int i)\<rparr>]"
    have e: "local_mean_loop scs i = local_mean_loop ?scs' (i + 1)"
      using True by (subst local_mean_loop.simps) simp
    have len': "length ?scs' = length scs" by simp
    have raw': "map raw_quality ?scs' = map raw_quality scs"
      using True by (simp add: map_update list_update_same_conv)
    have idx': "map index ?scs' = map index scs"
      using True by (simp add: map_update list_update_same_conv)
    note IH = "1.IH" [OF True]
    from IH have l: "length (local_mean_loop ?scs' (i + 1)) = length scs" by simp
    from IH raw' have r: "map raw_quality (local_mean_loop ?scs' (i + 1)) = map raw_quality scs" by simp
    from IH idx' have x: "map index (local_mean_loop ?scs' (i + 1)) = map index scs" by simp
    have m: "local_mean (local_mean_loop ?scs' (i + 1) ! k) = local_mean_at scs (int k)"
      if "i \<le> k \<and> k < length scs" for k
    proof (cases "k = i")
      case True
      with that IH have "local_mean_loop ?scs' (i + 1) ! k = ?scs' ! k" by simp
      with True that show ?thesis by simp
    next
      case False
      with that IH have "local_mean (local_mean_loop ?scs' (i + 1) ! k) = local_mean_at ?scs' (int k)"
        by simp
      also have "\<dots> = local_mean_at scs (int k)" by (rule local_mean_at_cong [OF raw'])
      finally show ?thesis .
    qed
    have b: "local_mean_loop ?scs' (i + 1) ! k = scs ! k" if "k < i \<and> k < length scs" for k
    proof -
      from that IH have "local_mean_loop ?scs' (i + 1) ! k = ?scs' ! k" by simp
      with that show ?thesis by simp
    qed
    from l r x m b show ?thesis unfolding e by blast
  qed
qed

text \<open>
  Claim C6. After \<^verbatim>\<open>search_approx\<close> has sorted the scores of a key by index, the local
  mean of the score at position \<open>i\<close> is the average of the raw qualities of the positions
  \<open>k\<close> of the vector with \<open>4 \<le> |k - i| \<le> 20\<close>, and 0 when there is no such position. The
  positions with \<open>|k - i| \<le> 3\<close>, the score itself among them, do not contribute: other
  raw qualities there give the same local mean. Indices and raw qualities stay as sorted.
\<close>

theorem local_mean_of_far_neighbours:
  "i < length scs \<longrightarrow>
     length (compute_local_means scs) = length scs
     \<and> index (compute_local_means scs ! i) = index (sort_key index scs ! i)
     \<and> raw_quality (compute_local_means scs ! i) = raw_quality (sort_key index scs ! i)
     \<and> local_mean (compute_local_means scs ! i) =
         (if {k. k < length scs \<and> 4 \<le> \<bar>int k - int i\<bar> \<and> \<bar>int k - int i\<bar> \<le> 20} = {} then 0
          else (\<Sum>k \<in> {k. k < length scs \<and> 4 \<le> \<bar>int k - int i\<bar> \<and> \<bar>int k - int i\<bar> \<le> 20}.
                  raw_quality (sort_key index scs ! k))
               / real (card {k. k < length scs \<and> 4 \<le> \<bar>int k - int i\<bar> \<and> \<bar>int k - int i\<bar> \<le> 20}))
     \<and> (\<forall>scs'. length scs' = length scs
           \<and> (\<forall>k. k < length scs \<and> 4 \<le> \<bar>int k - int i\<bar> \<longrightarrow>
                  raw_quality (sort_key index scs' ! k) = raw_quality (sort_key index scs ! k))
           \<longrightarrow> local_mean (compute_local_means scs' ! i) = local_mean (compute_local_means scs ! i))"
proof
  assume i: "i < length scs"
  let ?s = "sort_key index scs"
  let ?N = "{k. k < length scs \<and> 4 \<le> \<bar>int k - int i\<bar> \<and> \<bar>int k - int i\<bar> \<le> 20}"
  have n: "mean_neighbours (length ?s) i = ?N" by (simp add: mean_neighbours_def)
  from i have i': "i < length ?s" by simp
  note sp = local_mean_loop_spec [of ?s 0]
  from sp have l: "length (compute_local_means scs) = length scs"
    by (simp add: compute_local_means_def)
  from sp have "map index (compute_local_means scs) = map index ?s"
    by (simp add: compute_local_means_def)
  with i' l have x: "index (compute_local_means scs ! i) = index (?s ! i)"
    by (metis length_map nth_map)
  from sp have "map raw_quality (compute_local_means scs) = map raw_quality ?s"
    by (simp add: compute_local_means_def)
  with i' l have r: "raw_quality (compute_local_means scs ! i) = raw_quality (?s ! i)"
    by (metis length_map nth_map)
  have lm: "local_mean (compute_local_means scs' ! i) = local_mean_at (sort_key index scs') (int i)"
    if "length scs' = length scs" for scs'
    using local_mean_loop_spec [of "sort_key index scs'" 0] i that
    by (simp add: compute_local_means_def)
  have m: "local_mean (compute_local_means scs ! i) =
         (if ?N = {} then 0
          else (\<Sum>k \<in> ?N. raw_quality (?s ! k)) / real (card ?N))"
    unfolding lm [OF refl] local_mean_at_eq n ..
  have e: "local_mean (compute_local_means scs' ! i) = local_mean (compute_local_means scs ! i)"
    if len: "length scs' = length scs"
      and far: "\<forall>k. k < length scs \<and> 4 \<le> \<bar>int k - int i\<bar> \<longrightarrow>
                  raw_quality (sort_key index scs' ! k) = raw_quality (?s ! k)"
    for scs'
  proof -
    have n': "mean_neighbours (length (sort_key index scs')) i = ?N"
      using len by (simp add: mean_neighbours_def)
    have "(\<Sum>k \<in> ?N. raw_quality (sort_key index scs' ! k)) = (\<Sum>k \<in> ?N. raw_quality (?s ! k))"
      by (rule sum.cong) (use far in auto)
    then show ?thesis
      unfolding lm [OF len] lm [OF refl] local_mean_at_eq n n' by simp
  qed
  from l x r m e
  show "length (compute_local_means scs) = length scs
     \<and> index (compute_local_means scs ! i) = index (?s ! i)
     \<and> raw_quality (compute_local_means scs ! i) = raw_quality (?s ! i)
     \<and> local_mean (compute_local_means scs ! i) =
         (if ?N = {} then 0 else (\<Sum>k \<in> ?N. raw_quality (?s ! k)) / real (card ?N))
     \<and> (\<forall>scs'. length scs' = length scs
           \<and> (\<forall>k. k < length scs \<and> 4 \<le> \<bar>int k - int i\<bar> \<longrightarrow>
                  raw_quality (sort_key index scs' ! k) = raw_quality (?s ! k))
           \<longrightarrow> local_mean (compute_local_means scs' ! i) = local_mean (compute_local_means scs ! i))"
    by blast
qed

lemma local_mean_example:
  "compute_local_means
     [\<lparr>index = 1536, raw_quality = 0, local_mean = 0\<rparr>, \<lparr>index = 0, raw_quality = 6, local_mean = 0\<rparr>,
      \<lparr>index = 256, raw_quality = 5, local_mean = 0\<rparr>, \<lparr>index = 512, raw_quality = 4, local_mean = 0\<rparr>,
      \<lparr>index = 768, raw_quality = 3, local_mean = 0\<rparr>, \<lparr>index = 1024, raw_quality = 2, local_mean = 0\<rparr>,
      \<lparr>index = 1280, raw_quality = 1, local_mean = 0\<rparr>]
   = [\<lparr>index = 0, raw_quality = 6, local_mean = 1\<rparr>, \<lparr>index = 256, raw_quality = 5, local_mean = 1 / 2\<rparr>,
      \<lparr>index = 512, raw_quality = 4, local_mean = 0\<rparr>, \<lparr>index = 768, raw_quality = 3, local_mean = 0\<rparr>,
      \<lparr>index = 1024, raw_quality = 2, local_mean = 6\<rparr>, \<lparr>index = 1280, raw_quality = 1, local_mean = 11 / 2\<rparr>,
      \<lparr>index = 1536, raw_quality = 0, local_mean = 5\<rparr>]"
  by (simp add: compute_local_means_def local_mean_loop.simps local_mean_at_def local_mean_sums_def
                local_mean_distance_def Let_def upto.simps)

theorem local_mean_of_far_neighbours_witness:
  "(0::nat) < length
     [\<lparr>index = 1536, raw_quality = 0, local_mean = 0\<rparr>, \<lparr>index = 0, raw_quality = 6, local_mean = 0\<rparr>,
      \<lparr>index = 256, raw_quality = 5, local_mean = 0\<rparr>, \<lparr>index = 512, raw_quality = 4, local_mean = 0\<rparr>,
      \<lparr>index = 768, raw_quality = 3, local_mean = 0\<rparr>, \<lparr>index = 1024, raw_quality = 2, local_mean = 0\<rparr>,
      \<lparr>index = 1280, raw_quality = 1, local_mean = 0\<rparr>]
   \<and> local_mean (compute_local_means
     [\<lparr>index = 1536, raw_quality = 0, local_mean = 0\<rparr>, \<lparr>index = 0, raw_quality = 6, local_mean = 0\<rparr>,
      \<lparr>index = 256, raw_quality = 5, local_mean = 0\<rparr>, \<lparr>index = 512, raw_quality = 4, local_mean = 0\<rparr>,
      \<lparr>index = 768, raw_quality = 3, local_mean = 0\<rparr>, \<lparr>index = 1024, raw_quality = 2, local_mean = 0\<rparr>,
      \<lparr>index = 1280, raw_quality = 1, local_mean = 0\<rparr>] ! 0) = 1
   \<and> (\<Sum>k \<in> {k. k < 7 \<and> 4 \<le> \<bar>int k - int 0\<bar> \<and> \<bar>int k - int 0\<bar> \<le> 20}.
         raw_quality ([\<lparr>index = 0, raw_quality = 6, local_mean = 0\<rparr>, \<lparr>index = 256, raw_quality = 5, local_mean = 0\<rparr>,
      \<lparr>index = 512, raw_quality = 4, local_mean = 0\<rparr>, \<lparr>index = 768, raw_quality = 3, local_mean = 0\<rparr>,
      \<lparr>index = 1024, raw_quality = 2, local_mean = 0\<rparr>, \<lparr>index = 1280, raw_quality = 1, local_mean = 0\<rparr>,
      \<lparr>index = 1536, raw_quality = 0, local_mean = 0\<rparr>] ! k))
       / real (card {k. k < (7::nat) \<and> 4 \<le> \<bar>int k - int 0\<bar> \<and> \<bar>int k - int 0\<bar> \<le> 20}) = 1"
proof -
  let ?scs = "[\<lparr>index = 1536, raw_quality = 0, local_mean = 0\<rparr>, \<lparr>index = 0, raw_quality = 6, local_mean = 0\<rparr>,
      \<lparr>index = 256, raw_quality = 5, local_mean = 0\<rparr>, \<lparr>index = 512, raw_quality = 4, local_mean = 0\<rparr>,
      \<lparr>index = 768, raw_quality = 3, local_mean = 0\<rparr>, \<lparr>index = 1024, raw_quality = 2, local_mean = 0\<rparr>,
      \<lparr>index = 1280, raw_quality = 1, local_mean = 0\<rparr>]"
  have ne: "{k. k < (7::nat) \<and> 4 \<le> \<bar>int k - int 0\<bar> \<and> \<bar>int k - int 0\<bar> \<le> 20} = {4, 5, 6}"
    by auto
  have v: "local_mean (compute_local_means ?scs ! 0) = 1"
    by (simp add: local_mean_example)
  from local_mean_of_far_neighbours [of 0 ?scs] v ne
  show ?thesis by simp
qed

subsection \<open>Parameters and collaborators\<close>

text \<open>
  The fields of \<^verbatim>\<open>Params\<close> and the functions \<^verbatim>\<open>mark_sync_frame_count ()\<close> and
  \<^verbatim>\<open>mark_data_frame_count ()\<close> that the sync finder reads (\<^verbatim>\<open>wmcommon.hh\<close> is not among the
  sources, so they are parameters).
\<close>

record Params = SpeedParams +
  frame_size :: nat
  sync_search_step :: nat
  sync_search_fine :: nat
  min_band :: int
  max_band :: int
  sync_bits :: nat
  sync_frames_per_bit :: nat
  mark_sync_frame_count :: nat
  mark_data_frame_count :: nat
  frames_pad_start :: nat
  sync_threshold2 :: real
  get_n_best :: int
  test_no_sync :: bool

text \<open>
  Modelled from the spec: the pseudo-random streams of a key are deterministic functions
  of the key, the stream and a counter. \<^verbatim>\<open>UpDownGen::get\<close> gives the up and down bands of
  a counter, \<^verbatim>\<open>BitPosGen::sync_frame\<close> the frame of a sync position (\<^verbatim>\<open>random.hh\<close> and
  \<^verbatim>\<open>wmcommon.hh\<close> are not among the sources). The FFT of a frame and the conversion to dB
  are outside the core: \<open>band_db wav pos b\<close> is the sum over the channels of the dB
  magnitude of band \<open>min_band + b\<close> for the frame that starts at sample \<open>pos\<close>.
  \<^verbatim>\<open>frame_count (wav_data)\<close> (\<^verbatim>\<open>wmcommon.cc\<close>) is the number of frames of a signal.
\<close>

record 'k SyncEnv =
  up_down_gen :: "'k \<Rightarrow> nat \<Rightarrow> int list \<times> int list"
  sync_frame :: "'k \<Rightarrow> nat \<Rightarrow> int"
  band_db :: "WavData \<Rightarrow> nat \<Rightarrow> nat \<Rightarrow> real"
  frame_count :: "WavData \<Rightarrow> nat"

datatype Mode = BLOCK | CLIP




record FrameBit =
  frame :: int
  up :: "int list"
  down :: "int list"


definition first_block_end :: "'a Params_scheme \<Rightarrow> nat" where
  "first_block_end P = mark_sync_frame_count P + mark_data_frame_count P"


subsection \<open>The sync pattern (\<^verbatim>\<open>get_sync_bits\<close>)\<close>

text \<open>
  The body of the loop over \<^verbatim>\<open>block\<close>: one \<^verbatim>\<open>FrameBit\<close>. In block 0 the up bands come
  from \<^verbatim>\<open>frame_up\<close>; in the second block of a clip pattern they come from \<^verbatim>\<open>frame_down\<close>.
\<close>

definition frame_bit_of ::
  "'a Params_scheme \<Rightarrow> ('k, 'e) SyncEnv_scheme \<Rightarrow> 'k \<Rightarrow> nat \<Rightarrow> nat \<Rightarrow> nat \<Rightarrow> FrameBit" where
  "frame_bit_of P E k b f block =
     (let (frame_up, frame_down) = up_down_gen E k (f + b * sync_frames_per_bit P);
          fr = sync_frame E k (f + b * sync_frames_per_bit P) + int block * int (first_block_end P)
      in if block = 0
         then \<lparr>frame = fr,
               up = sort (map (\<lambda>u. u - min_band P) frame_up),
               down = sort (map (\<lambda>d. d - min_band P) frame_down)\<rparr>
         else \<lparr>frame = fr,
               up = sort (map (\<lambda>d. d - min_band P) frame_down),
               down = sort (map (\<lambda>u. u - min_band P) frame_up)\<rparr>)"

definition get_sync_bits ::
  "'a Params_scheme \<Rightarrow> ('k, 'e) SyncEnv_scheme \<Rightarrow> 'k \<Rightarrow> Mode \<Rightarrow> FrameBit list list" where
  "get_sync_bits P E k mode =
     (let block_count = (if mode = CLIP then 2 else 1 :: nat)
      in map (\<lambda>b. sort_key frame
                     (concat (map (\<lambda>f. map (frame_bit_of P E k b f) [0 ..< block_count])
                                  [0 ..< sync_frames_per_bit P])))
             [0 ..< sync_bits P])"

lemma length_concat_const:
  assumes "\<forall>x \<in> set xs. length (g x) = c"
  shows "length (concat (map g xs)) = length xs * c"
  using assms by (induction xs) simp_all

lemma frame_bit_of_swapped:
  "frame_bit_of P E k b f 1 =
     \<lparr>frame = frame (frame_bit_of P E k b f 0) + int (first_block_end P),
      up = down (frame_bit_of P E k b f 0),
      down = up (frame_bit_of P E k b f 0)\<rparr>"
  by (simp add: frame_bit_of_def Let_def split: prod.split)

lemma frame_bit_of_sorted:
  "sorted (up (frame_bit_of P E k b f 0)) \<and> sorted (down (frame_bit_of P E k b f 0))"
  by (simp add: frame_bit_of_def Let_def split: prod.split)

text \<open>
  Claim C5. For every key, \<^verbatim>\<open>get_sync_bits (key, BLOCK)\<close> returns \<open>sync_bits\<close> inner lists
  of \<open>sync_frames_per_bit\<close> frame bits, and \<^verbatim>\<open>get_sync_bits (key, CLIP)\<close> returns
  \<open>sync_bits\<close> inner lists of \<open>2 * sync_frames_per_bit\<close> frame bits. For each frame bit of
  the block pattern, at frame \<open>f\<close> with the band lists \<open>(up, down)\<close>, the clip pattern holds
  that frame bit and one at frame \<open>f + mark_sync_frame_count () + mark_data_frame_count ()\<close>
  whose up list is \<open>down\<close> and whose down list is \<open>up\<close>; both lists are sorted ascending.
\<close>

theorem get_sync_bits_pattern:
  "length (get_sync_bits P E k BLOCK) = sync_bits P
   \<and> length (get_sync_bits P E k CLIP) = sync_bits P
   \<and> (\<forall>b. b < sync_bits P \<longrightarrow>
         length (get_sync_bits P E k BLOCK ! b) = sync_frames_per_bit P
       \<and> length (get_sync_bits P E k CLIP ! b) = 2 * sync_frames_per_bit P
       \<and> (\<forall>fb \<in> set (get_sync_bits P E k BLOCK ! b).
             fb \<in> set (get_sync_bits P E k CLIP ! b)
           \<and> \<lparr>frame = frame fb + int (mark_sync_frame_count P + mark_data_frame_count P),
               up = down fb, down = up fb\<rparr> \<in> set (get_sync_bits P E k CLIP ! b)
           \<and> sorted (up fb) \<and> sorted (down fb)))"
proof -
  let ?n = "sync_frames_per_bit P"
  let ?blk = "\<lambda>b. concat (map (\<lambda>f. map (frame_bit_of P E k b f) [0 ..< 1]) [0 ..< ?n])"
  let ?clp = "\<lambda>b. concat (map (\<lambda>f. map (frame_bit_of P E k b f) [0 ..< 2]) [0 ..< ?n])"
  have lb: "length (get_sync_bits P E k BLOCK) = sync_bits P"
    and lc: "length (get_sync_bits P E k CLIP) = sync_bits P"
    by (simp_all add: get_sync_bits_def)
  have nb: "get_sync_bits P E k BLOCK ! b = sort_key frame (?blk b)"
    and nc: "get_sync_bits P E k CLIP ! b = sort_key frame (?clp b)"
    if "b < sync_bits P" for b
    using that by (simp_all add: get_sync_bits_def)
  have len_b: "length (?blk b) = ?n" for b
    using length_concat_const [of "[0 ..< ?n]" "\<lambda>f. map (frame_bit_of P E k b f) [0 ..< 1]" 1]
    by simp
  have len_c: "length (?clp b) = 2 * ?n" for b
    using length_concat_const [of "[0 ..< ?n]" "\<lambda>f. map (frame_bit_of P E k b f) [0 ..< 2]" 2]
    by simp
  have set_b: "set (?blk b) = (\<lambda>f. frame_bit_of P E k b f 0) ` {0 ..< ?n}" for b
    by auto
  have set_c: "set (?clp b) = (\<lambda>f. frame_bit_of P E k b f 0) ` {0 ..< ?n}
                              \<union> (\<lambda>f. frame_bit_of P E k b f 1) ` {0 ..< ?n}" for b
  proof -
    have "[0 ..< 2] = [0, 1::nat]" by (simp add: upt_rec)
    then show ?thesis by auto
  qed
  have main: "length (get_sync_bits P E k BLOCK ! b) = ?n
       \<and> length (get_sync_bits P E k CLIP ! b) = 2 * ?n
       \<and> (\<forall>fb \<in> set (get_sync_bits P E k BLOCK ! b).
             fb \<in> set (get_sync_bits P E k CLIP ! b)
           \<and> \<lparr>frame = frame fb + int (mark_sync_frame_count P + mark_data_frame_count P),
               up = down fb, down = up fb\<rparr> \<in> set (get_sync_bits P E k CLIP ! b)
           \<and> sorted (up fb) \<and> sorted (down fb))"
    if b: "b < sync_bits P" for b
  proof (intro conjI ballI)
    show "length (get_sync_bits P E k BLOCK ! b) = ?n"
      unfolding nb [OF b] length_sort by (rule len_b)
    show "length (get_sync_bits P E k CLIP ! b) = 2 * ?n"
      unfolding nc [OF b] length_sort by (rule len_c)
  next
    fix fb assume "fb \<in> set (get_sync_bits P E k BLOCK ! b)"
    then have "fb \<in> set (?blk b)" unfolding nb [OF b] set_sort .
    then obtain f where f: "f < ?n" and fb: "fb = frame_bit_of P E k b f 0"
      unfolding set_b by auto
    from f fb show "fb \<in> set (get_sync_bits P E k CLIP ! b)"
      unfolding nc [OF b] set_sort set_c by simp
    have "frame_bit_of P E k b f 1 \<in> set (?clp b)"
      unfolding set_c using f by simp
    then show "\<lparr>frame = frame fb + int (mark_sync_frame_count P + mark_data_frame_count P),
               up = down fb, down = up fb\<rparr> \<in> set (get_sync_bits P E k CLIP ! b)"
      unfolding nc [OF b] set_sort fb frame_bit_of_swapped first_block_end_def .
    from fb show "sorted (up fb)" and "sorted (down fb)"
      using frame_bit_of_sorted [of P E k b f] by simp_all
  qed
  from lb lc main show ?thesis by blast
qed

subsection \<open>Frame spectra and sync decoding\<close>









subsection \<open>The coarse search (\<^verbatim>\<open>search_approx\<close>)\<close>






subsection \<open>Selecting candidates\<close>











subsection \<open>Refinement (\<^verbatim>\<open>search_refine\<close>)\<close>







subsection \<open>The search (\<^verbatim>\<open>SyncFinder::search\<close>)\<close>







subsection \<open>The refinement sweep\<close>












subsection \<open>Signals shorter than one block\<close>









subsection \<open>A small configuration for concrete instances\<close>

text \<open>
  The frame size 1024, the search step 256 and the fine step 8 are the canonical values.
  The pattern is small: 2 sync bits of 2 frames each in a block of 5 frames, over 2 bands.
  The signal has 9000 samples at 44100 Hz, which is 0.204 s. In \<open>peak_env\<close> the second
  band of the frames 0 and 3 of the signal is louder exactly when the frame grid starts at
  a sample \<open>16 + 1024 * m\<close>.
\<close>

definition example_params :: Params where
  "example_params =
     \<lparr>water_delta = 1 / 100, detect_speed_patient = False, frame_size = 1024,
      sync_search_step = 256, sync_search_fine = 8, min_band = 20, max_band = 21,
      sync_bits = 2, sync_frames_per_bit = 2, mark_sync_frame_count = 4,
      mark_data_frame_count = 1, frames_pad_start = 0, sync_threshold2 = 7 / 10,
      get_n_best = 1, test_no_sync = False\<rparr>"


definition peak_env :: "nat SyncEnv" where
  "peak_env =
     \<lparr>up_down_gen = (\<lambda>k f. ([21], [20])),
      sync_frame = (\<lambda>k f. int ((f * 3) mod 5)),
      band_db = (\<lambda>w pos b. if pos mod 1024 = 16 \<and> (pos div 1024 = 0 \<or> pos div 1024 = 3) \<and> b = 1
                            then 2 else 1),
      frame_count = (\<lambda>w. n_values w div n_channels w div 1024)\<rparr>"

subsection \<open>Evaluating the small configuration\<close>






lemma ev_sbits: "get_sync_bits example_params peak_env 0 BLOCK =
   [[\<lparr>frame = 0, up = [1], down = [0]\<rparr>, \<lparr>frame = 3, up = [1], down = [0]\<rparr>],
    [\<lparr>frame = 1, up = [1], down = [0]\<rparr>, \<lparr>frame = 4, up = [1], down = [0]\<rparr>]]"
  by code_simp
















subsection \<open>Instances and remaining claims\<close>

theorem get_sync_bits_pattern_witness:
  "(0::nat) < sync_bits example_params
   \<and> get_sync_bits example_params peak_env 0 BLOCK ! 0
       = [\<lparr>frame = 0, up = [1], down = [0]\<rparr>, \<lparr>frame = 3, up = [1], down = [0]\<rparr>]
   \<and> length (get_sync_bits example_params peak_env 0 CLIP ! 0) = 4
   \<and> \<lparr>frame = 0, up = [1], down = [0]\<rparr> \<in> set (get_sync_bits example_params peak_env 0 CLIP ! 0)
   \<and> \<lparr>frame = 5, up = [0], down = [1]\<rparr> \<in> set (get_sync_bits example_params peak_env 0 CLIP ! 0)"
proof -
  have b: "(0::nat) < sync_bits example_params" by (simp add: example_params_def)
  have e: "get_sync_bits example_params peak_env 0 BLOCK ! 0
       = [\<lparr>frame = 0, up = [1], down = [0]\<rparr>, \<lparr>frame = 3, up = [1], down = [0]\<rparr>]"
    by (simp add: ev_sbits)
  then have m: "\<lparr>frame = 0, up = [1], down = [0]\<rparr> \<in> set (get_sync_bits example_params peak_env 0 BLOCK ! 0)"
    by simp
  have f: "mark_sync_frame_count example_params + mark_data_frame_count example_params = 5"
    "sync_frames_per_bit example_params = 2"
    by (simp_all add: example_params_def)
  from get_sync_bits_pattern [of example_params peak_env 0] b
  have "length (get_sync_bits example_params peak_env 0 CLIP ! 0) = 2 * sync_frames_per_bit example_params
       \<and> (\<forall>fb \<in> set (get_sync_bits example_params peak_env 0 BLOCK ! 0).
             fb \<in> set (get_sync_bits example_params peak_env 0 CLIP ! 0)
           \<and> \<lparr>frame = frame fb + int (mark_sync_frame_count example_params + mark_data_frame_count example_params),
               up = down fb, down = up fb\<rparr> \<in> set (get_sync_bits example_params peak_env 0 CLIP ! 0))"
    by blast
  with m f have "length (get_sync_bits example_params peak_env 0 CLIP ! 0) = 4"
    and "\<lparr>frame = 0, up = [1], down = [0]\<rparr> \<in> set (get_sync_bits example_params peak_env 0 CLIP ! 0)"
    and "\<lparr>frame = 5, up = [0], down = [1]\<rparr> \<in> set (get_sync_bits example_params peak_env 0 CLIP ! 0)"
    by fastforce+
  with b e show ?thesis by blast
qed







end
